theory Spec2Isabelle
  imports Main "HOL-Library.Log_Nat"
begin

section \<open>Instants and durations\<close>

text \<open>
  A Go \<^verbatim>\<open>time.Duration\<close> is a signed 64-bit count of nanoseconds. A \<^verbatim>\<open>time.Time\<close>
  is modelled by its wall-clock reading: the number of nanoseconds since
  0001-01-01 00:00:00 UTC. Every comparison and subtraction of the program has the
  target as one operand, and the target (built by \<^verbatim>\<open>time.Date\<close> or
  \<^verbatim>\<open>time.ParseInLocation\<close>) carries no monotonic reading, so Go compares wall
  clocks there.
\<close>

type_synonym Duration = int
type_synonym Time = int

definition Nanosecond :: Duration where "Nanosecond = 1"
definition Second :: Duration where "Second = 1000000000"
definition Minute :: Duration where "Minute = 60 * Second"
definition Hour :: Duration where "Hour = 60 * Minute"

definition minDuration :: Duration where "minDuration = - (2 ^ 63)"
definition maxDuration :: Duration where "maxDuration = 2 ^ 63 - 1"

definition After :: "Time \<Rightarrow> Time \<Rightarrow> bool" where
  "After t u = (u < t)"

definition Before :: "Time \<Rightarrow> Time \<Rightarrow> bool" where
  "Before t u = (t < u)"

text \<open>\<^verbatim>\<open>t.Sub(u)\<close> saturates at the ends of the 64-bit range.\<close>

definition Sub :: "Time \<Rightarrow> Time \<Rightarrow> Duration" where
  "Sub t u =
     (let d = t - u in
      if maxDuration < d then maxDuration
      else if d < minDuration then minDuration
      else d)"

definition Add :: "Time \<Rightarrow> Duration \<Rightarrow> Time" where
  "Add t d = t + d"

section \<open>The wait loop of \<^verbatim>\<open>main\<close>\<close>

text \<open>
  One pass through the body of the \<^verbatim>\<open>for\<close> loop, from the sample \<open>now\<close> of the
  clock: either the program returns, or it calls \<^verbatim>\<open>time.Sleep\<close> with a duration.
  The division \<^verbatim>\<open>dur / 2\<close> is only reached with \<open>dur\<close> above one minute, where
  Go's truncating division and \<open>div\<close> agree.
\<close>

datatype iteration = Return | Sleep Duration

definition wait_step :: "Time \<Rightarrow> Time \<Rightarrow> iteration" where
  "wait_step tgt now =
     (if After now tgt then Return
      else
        let dur = Sub tgt now in
        if dur < Second then Return
        else Sleep (if 2 * Hour < dur then Hour
                    else if Minute < dur then dur div 2
                    else dur))"

text \<open>
  The loop against an arbitrary clock: the list holds the successive results of
  \<^verbatim>\<open>time.Now()\<close>, whatever the clock does between two samples. The result is the list
  of durations slept, or \<open>None\<close> when the samples run out before the loop returns.
\<close>

fun wait_loop :: "Time \<Rightarrow> Time list \<Rightarrow> Duration list option" where
  "wait_loop tgt [] = None"
| "wait_loop tgt (now # clock) =
     (case wait_step tgt now of
        Return \<Rightarrow> Some []
      | Sleep d \<Rightarrow> map_option ((#) d) (wait_loop tgt clock))"

text \<open>
  The loop against a stable clock: a sleep of \<open>d\<close> advances the clock by exactly \<open>d\<close>.
  The result is the list of durations slept.
\<close>

function wait_stable :: "Time \<Rightarrow> Time \<Rightarrow> Duration list" where
  "wait_stable tgt now =
     (case wait_step tgt now of
        Return \<Rightarrow> []
      | Sleep d \<Rightarrow> d # wait_stable tgt (now + d))"
  by pat_completeness auto

lemma wait_step_Sleep_bounds:
  assumes "wait_step tgt now = Sleep d"
  shows "0 < d" and "d \<le> Hour" and "d \<le> tgt - now" and "Second \<le> tgt - now"
  using assms
  by (auto simp: wait_step_def After_def Sub_def Let_def Second_def Minute_def Hour_def
      maxDuration_def minDuration_def split: if_splits)

termination wait_stable
proof (relation "measure (\<lambda>(tgt, now). nat (tgt - now))")
  show "wf (measure (\<lambda>(tgt, now). nat (tgt - now)))"
    by simp
next
  fix tgt now :: Time and d :: Duration
  assume "wait_step tgt now = Sleep d"
  from wait_step_Sleep_bounds [OF this]
  show "((tgt, now + d), (tgt, now)) \<in> measure (\<lambda>(tgt, now). nat (tgt - now))"
    by simp
qed

text \<open>The samples a stable clock yields while the durations \<open>ds\<close> are slept in turn.\<close>

fun stable_clock :: "Time \<Rightarrow> Duration list \<Rightarrow> Time list" where
  "stable_clock now [] = [now]"
| "stable_clock now (d # ds) = now # stable_clock (now + d) ds"

section \<open>Calendar arithmetic of package \<^verbatim>\<open>time\<close>\<close>

text \<open>
  The functions of Go's package \<^verbatim>\<open>time\<close> that \<^verbatim>\<open>parseHHMM\<close> and \<^verbatim>\<open>parseTime\<close> call.
  In this section the local zone is a zone of fixed offset: a \<open>Location\<close> is the number
  of seconds east of UTC, and every function that reads or builds a local time takes it as
  an argument. Zones with transitions (daylight saving) are the subject of the last
  subsection of the definitions, where the same functions take a zone that is looked up;
  on a zone of fixed offset they are the functions of this section. Years are
  proleptic Gregorian. Go computes on \<^verbatim>\<open>uint64\<close> days since an epoch that lies a
  multiple of 400 years before the year 1; the model counts days from 0001-01-01 instead
  and uses \<open>div\<close>, which rounds down, so that the same cycles of 400, 100, 4 and 1 years
  are cut at the same places. Go's \<^verbatim>\<open>int\<close> arithmetic is modelled on unbounded
  integers: the model is exact as long as no intermediate value leaves 64 bits, and
  \<^verbatim>\<open>time.Date\<close> wraps around where one does. The fields of a parsed date and of \<open>now\<close>
  are far from that; the hour, minute and second of a clock time are scanned integers of
  up to 64 bits, and a statement that depends on how \<^verbatim>\<open>time.Date\<close> carries them assumes
  that they fit 32 bits.
\<close>

type_synonym Location = int

definition isLeap :: "int \<Rightarrow> bool" where
  "isLeap year = (year mod 4 = 0 \<and> (year mod 100 \<noteq> 0 \<or> year mod 400 = 0))"

definition daysBefore :: "int list" where
  "daysBefore = [0, 31, 59, 90, 120, 151, 181, 212, 243, 273, 304, 334, 365]"

text \<open>
  \<^verbatim>\<open>daysBefore[m]\<close> counts the days of a non-leap year before month \<open>m + 1\<close>; the
  model reads the table only at months 1 to 12.
\<close>

definition daysIn :: "int \<Rightarrow> int \<Rightarrow> int" where
  "daysIn m year =
     (if m = 2 \<and> isLeap year then 29
      else daysBefore ! nat m - daysBefore ! nat (m - 1))"

text \<open>
  \<^verbatim>\<open>norm(hi, lo, base)\<close> carries \<open>lo\<close> into \<open>hi\<close> until \<open>0 \<le> lo < base\<close>. The divisions
  are on non-negative operands, where Go's truncation and \<open>div\<close> agree.
\<close>

definition norm_go :: "int \<Rightarrow> int \<Rightarrow> int \<Rightarrow> int \<times> int" where
  "norm_go hi lo base =
     (let (hi, lo) =
            (if lo < 0
             then (let n = (- lo - 1) div base + 1 in (hi - n, lo + n * base))
             else (hi, lo));
          (hi, lo) =
            (if base \<le> lo
             then (let n = lo div base in (hi + n, lo - n * base))
             else (hi, lo))
      in (hi, lo))"

text \<open>The days from 0001-01-01 to the first day of a year.\<close>

definition daysSinceEpoch :: "int \<Rightarrow> int" where
  "daysSinceEpoch year =
     (let y = year - 1;
          n400 = y div 400;
          y = y - 400 * n400;
          n100 = y div 100;
          y = y - 100 * n100;
          n4 = y div 4;
          y = y - 4 * n4
      in 146097 * n400 + 36524 * n100 + 1461 * n4 + 365 * y)"

text \<open>The day number of a calendar date: the days before its year, month and day.\<close>

definition civil_days :: "int \<Rightarrow> int \<Rightarrow> int \<Rightarrow> int" where
  "civil_days year month day =
     daysSinceEpoch year + daysBefore ! nat (month - 1)
     + (if isLeap year \<and> 3 \<le> month then 1 else 0)
     + (day - 1)"

text \<open>
  \<^verbatim>\<open>time.Date\<close>: the month overflows into the year, nanoseconds, seconds, minutes and
  hours overflow into the day, and the day is added to the day number as it is, so that
  any value of any field gives an instant.
\<close>

definition Date :: "int \<Rightarrow> int \<Rightarrow> int \<Rightarrow> int \<Rightarrow> int \<Rightarrow> int \<Rightarrow> int \<Rightarrow> Location \<Rightarrow> Time" where
  "Date year month day hour minute sec nsec loc =
     (let (year, m) = norm_go year (month - 1) 12;
          month = m + 1;
          (sec, nsec) = norm_go sec nsec 1000000000;
          (minute, sec) = norm_go minute sec 60;
          (hour, minute) = norm_go hour minute 60;
          (day, hour) = norm_go day hour 24;
          d = civil_days year month day;
          abs = d * 86400 + (hour * 3600 + minute * 60 + sec);
          unix = abs - loc
      in unix * 1000000000 + nsec)"

definition absSec :: "Time \<Rightarrow> Location \<Rightarrow> int" where
  "absSec t loc = t div 1000000000 + loc"

text \<open>
  \<^verbatim>\<open>absDate\<close>, in two steps: the year and the day of the year (from 0) of a day number,
  then the month and the day of the month.
\<close>

definition absYear :: "int \<Rightarrow> int \<times> int" where
  "absYear days =
     (let n400 = days div 146097;
          y = 400 * n400;
          d = days - 146097 * n400;
          n100 = d div 36524;
          n100 = n100 - n100 div 4;
          y = y + 100 * n100;
          d = d - 36524 * n100;
          n4 = d div 1461;
          y = y + 4 * n4;
          d = d - 1461 * n4;
          n = d div 365;
          n = n - n div 4;
          y = y + n;
          d = d - 365 * n
      in (y + 1, d))"

definition absDate :: "int \<Rightarrow> int \<times> int \<times> int" where
  "absDate days =
     (let (year, yday) = absYear days in
      if isLeap year \<and> yday = 31 + 29 - 1 then (year, 2, 29)
      else
        let day = (if isLeap year \<and> yday > 31 + 29 - 1 then yday - 1 else yday);
            month = day div 31;
            end = daysBefore ! nat (month + 1);
            (month, begin) =
               (if end \<le> day then (month + 1, end) else (month, daysBefore ! nat month))
        in (year, month + 1, day - begin + 1))"

text \<open>
  The fields of an instant in a location: \<^verbatim>\<open>t.Year()\<close>, \<^verbatim>\<open>t.Month()\<close>, \<^verbatim>\<open>t.Day()\<close>,
  \<^verbatim>\<open>t.Hour()\<close>, \<^verbatim>\<open>t.Minute()\<close>, \<^verbatim>\<open>t.Second()\<close> and \<^verbatim>\<open>t.Nanosecond()\<close>.
\<close>

definition Time_Year :: "Time \<Rightarrow> Location \<Rightarrow> int" where
  "Time_Year t loc = fst (absDate (absSec t loc div 86400))"

definition Time_Month :: "Time \<Rightarrow> Location \<Rightarrow> int" where
  "Time_Month t loc = fst (snd (absDate (absSec t loc div 86400)))"

definition Time_Day :: "Time \<Rightarrow> Location \<Rightarrow> int" where
  "Time_Day t loc = snd (snd (absDate (absSec t loc div 86400)))"

definition Time_Hour :: "Time \<Rightarrow> Location \<Rightarrow> int" where
  "Time_Hour t loc = (absSec t loc mod 86400) div 3600"

definition Time_Minute :: "Time \<Rightarrow> Location \<Rightarrow> int" where
  "Time_Minute t loc = (absSec t loc mod 3600) div 60"

definition Time_Second :: "Time \<Rightarrow> Location \<Rightarrow> int" where
  "Time_Second t loc = absSec t loc mod 60"

definition Time_Nanosecond :: "Time \<Rightarrow> int" where
  "Time_Nanosecond t = t mod 1000000000"

text \<open>\<^verbatim>\<open>t.AddDate(years, months, days)\<close> adds to the fields and goes through \<open>Date\<close>.\<close>

definition AddDate :: "Time \<Rightarrow> Location \<Rightarrow> int \<Rightarrow> int \<Rightarrow> int \<Rightarrow> Time" where
  "AddDate t loc years months days =
     Date (Time_Year t loc + years) (Time_Month t loc + months) (Time_Day t loc + days)
          (Time_Hour t loc) (Time_Minute t loc) (Time_Second t loc) (Time_Nanosecond t) loc"

section \<open>Scanning and parsing of the standard library\<close>

subsection \<open>fmt.Sscanf\<close>

text \<open>
  \<^verbatim>\<open>fmt.Sscanf\<close> for formats made of the verb \<^verbatim>\<open>%d\<close> and literal characters. The input
  is a string of bytes in UTF-8. \<open>space_runes\<close> lists the encodings of the runes that
  \<^verbatim>\<open>isSpace\<close> accepts, the newline apart: U+0009, U+000B to U+000D, U+0020, U+0085,
  U+00A0, U+1680, U+2000 to U+200A, U+2028, U+2029, U+202F, U+205F and U+3000. No encoding
  is the beginning of another, so the first that matches is the rune at the head.
\<close>

definition space_runes :: "string list" where
  "space_runes =
     [[CHR 0x09], [CHR 0x0B], [CHR 0x0C], [CHR 0x0D], [CHR 0x20],
      [CHR 0xC2, CHR 0x85], [CHR 0xC2, CHR 0xA0],
      [CHR 0xE1, CHR 0x9A, CHR 0x80],
      [CHR 0xE2, CHR 0x80, CHR 0x80], [CHR 0xE2, CHR 0x80, CHR 0x81],
      [CHR 0xE2, CHR 0x80, CHR 0x82], [CHR 0xE2, CHR 0x80, CHR 0x83],
      [CHR 0xE2, CHR 0x80, CHR 0x84], [CHR 0xE2, CHR 0x80, CHR 0x85],
      [CHR 0xE2, CHR 0x80, CHR 0x86], [CHR 0xE2, CHR 0x80, CHR 0x87],
      [CHR 0xE2, CHR 0x80, CHR 0x88], [CHR 0xE2, CHR 0x80, CHR 0x89],
      [CHR 0xE2, CHR 0x80, CHR 0x8A],
      [CHR 0xE2, CHR 0x80, CHR 0xA8], [CHR 0xE2, CHR 0x80, CHR 0xA9],
      [CHR 0xE2, CHR 0x80, CHR 0xAF],
      [CHR 0xE2, CHR 0x81, CHR 0x9F],
      [CHR 0xE3, CHR 0x80, CHR 0x80]]"

definition space_width :: "string \<Rightarrow> nat" where
  "space_width s =
     (case find (\<lambda>e. take (length e) s = e) space_runes of
        None \<Rightarrow> 0
      | Some e \<Rightarrow> length e)"

text \<open>
  \<^verbatim>\<open>SkipSpace\<close> of \<^verbatim>\<open>Sscanf\<close>, where a newline is not white space: it skips runes of
  white space and fails (\<open>None\<close>) when it meets a newline.
\<close>

function SkipSpace :: "string \<Rightarrow> string option" where
  "SkipSpace s =
     (if s = [] then Some []
      else if hd s = CHR 0x0A then None
      else if space_width s = 0 then Some s
      else SkipSpace (drop (space_width s) s))"
  by pat_completeness auto
termination
  by (relation "measure length") auto

text \<open>Decimal digits and their values; \<open>digits_val\<close> is the number a run of digits writes.\<close>

definition isDigit :: "char \<Rightarrow> bool" where
  "isDigit c = (c \<in> set ''0123456789'')"

definition digit_val :: "char \<Rightarrow> int" where
  "digit_val c = int (of_char c) - 48"

definition digits_val :: "string \<Rightarrow> int" where
  "digits_val ds = foldl (\<lambda>a c. 10 * a + digit_val c) 0 ds"

text \<open>
  The verb \<^verbatim>\<open>%d\<close> into an \<^verbatim>\<open>int\<close> of 64 bits: white space is skipped, the end of the
  input is an error, one sign is accepted, at least one digit is required and all that
  follow are taken, and \<^verbatim>\<open>strconv.ParseInt\<close> refuses a value outside 64 bits. The result
  is the value and the input left.
\<close>

definition scanInt :: "string \<Rightarrow> (int \<times> string) option" where
  "scanInt s =
     (case SkipSpace s of
        None \<Rightarrow> None
      | Some s1 \<Rightarrow>
          if s1 = [] then None
          else
            let (neg, s2) =
                  (if hd s1 = CHR ''-'' then (True, tl s1)
                   else if hd s1 = CHR ''+'' then (False, tl s1)
                   else (False, s1));
                tok = takeWhile isDigit s2;
                rest = dropWhile isDigit s2
            in if tok = [] then None
               else
                 let i = (if neg then - digits_val tok else digits_val tok)
                 in if i < - (2 ^ 63) \<or> 2 ^ 63 - 1 < i then None else Some (i, rest))"

text \<open>
  \<^verbatim>\<open>doScanf\<close>: a literal character of the format must be the next byte of the input
  (the end of the input is an error); the values scanned are returned in order. Input
  left over when the format ends is ignored. \<open>fmt_hms\<close> is \<^verbatim>\<open>"%d:%d:%d"\<close> and \<open>fmt_hm\<close>
  is \<^verbatim>\<open>"%d:%d"\<close>.
\<close>

datatype fmt = Verb_d | Lit char

fun doScanf :: "fmt list \<Rightarrow> string \<Rightarrow> int list option" where
  "doScanf [] s = Some []"
| "doScanf (Verb_d # f) s =
     (case scanInt s of
        None \<Rightarrow> None
      | Some (v, s') \<Rightarrow> map_option ((#) v) (doScanf f s'))"
| "doScanf (Lit c # f) s =
     (case s of
        [] \<Rightarrow> None
      | x # s' \<Rightarrow> if x = c then doScanf f s' else None)"

definition fmt_hms :: "fmt list" where
  "fmt_hms = [Verb_d, Lit (CHR '':''), Verb_d, Lit (CHR '':''), Verb_d]"

definition fmt_hm :: "fmt list" where
  "fmt_hm = [Verb_d, Lit (CHR '':''), Verb_d]"

subsection \<open>time.Parse\<close>

text \<open>
  \<^verbatim>\<open>time.Parse\<close> for the layouts of \<^verbatim>\<open>specs\<close>. \<open>nextStdChunk\<close> splits a layout at its
  first element: the model knows the six elements that occur in \<^verbatim>\<open>specs\<close>
  (\<^verbatim>\<open>2006\<close>, \<^verbatim>\<open>01\<close>, \<^verbatim>\<open>02\<close>, \<^verbatim>\<open>15\<close>, \<^verbatim>\<open>04\<close>, \<^verbatim>\<open>05\<close>) and the literals space, colon
  and hyphen (a hyphen not followed by \<^verbatim>\<open>07\<close>). Any other character is
  \<open>stdUnmodelled\<close>, on which parsing fails: the model is exact on the layouts made of
  these elements and literals and says nothing of the others.
\<close>

datatype std = stdLongYear | stdZeroMonth | stdZeroDay | stdHour | stdZeroMinute
  | stdZeroSecond | stdUnmodelled

definition std_at :: "string \<Rightarrow> (std \<times> nat) option" where
  "std_at l =
     (if take 4 l = ''2006'' then Some (stdLongYear, 4)
      else if take 2 l = ''01'' then Some (stdZeroMonth, 2)
      else if take 2 l = ''02'' then Some (stdZeroDay, 2)
      else if take 2 l = ''15'' then Some (stdHour, 2)
      else if take 2 l = ''04'' then Some (stdZeroMinute, 2)
      else if take 2 l = ''05'' then Some (stdZeroSecond, 2)
      else if take 1 l \<in> {'' '', '':''} \<or> (take 1 l = ''-'' \<and> take 3 l \<noteq> ''-07'') then None
      else Some (stdUnmodelled, 1))"

fun nextStdChunk :: "string \<Rightarrow> string \<times> (std option) \<times> string" where
  "nextStdChunk [] = ([], None, [])"
| "nextStdChunk (c # l) =
     (case std_at (c # l) of
        Some (st, n) \<Rightarrow> ([], Some st, drop n (c # l))
      | None \<Rightarrow> (let (prefix, st, suffix) = nextStdChunk l in (c # prefix, st, suffix)))"

text \<open>
  \<^verbatim>\<open>skip\<close> removes the literal prefix of the layout from the value. A space of the layout
  stands for a run of spaces of the value, or for the end of the value.
\<close>

definition cutspace :: "string \<Rightarrow> string" where
  "cutspace s = dropWhile (\<lambda>c. c = CHR '' '') s"

function skip :: "string \<Rightarrow> string \<Rightarrow> string option" where
  "skip v [] = Some v"
| "skip v (p # ps) =
     (if p = CHR '' '' then
        (if v \<noteq> [] \<and> hd v \<noteq> CHR '' '' then None
         else skip (cutspace v) (cutspace (p # ps)))
      else if v = [] \<or> hd v \<noteq> p then None
      else skip (tl v) ps)"
  by pat_completeness auto
termination
proof (relation "measure (\<lambda>(v, p). length p)")
  fix v :: string and p ps
  assume "p = CHR '' ''"
  have "length (cutspace (p # ps)) \<le> length ps"
    using \<open>p = CHR '' ''\<close> by (simp add: cutspace_def length_dropWhile_le)
  then show "((cutspace v, cutspace (p # ps)), (v, p # ps)) \<in> measure (\<lambda>(v, p). length p)"
    by simp
qed auto

text \<open>
  \<^verbatim>\<open>getnum\<close> reads a number of one or two digits; \<open>fixed\<close> demands two.
\<close>

definition getnum :: "string \<Rightarrow> bool \<Rightarrow> (int \<times> string) option" where
  "getnum s fixed =
     (case s of
        [] \<Rightarrow> None
      | c # r \<Rightarrow>
          if \<not> isDigit c then None
          else (case r of
                  [] \<Rightarrow> if fixed then None else Some (digit_val c, r)
                | c' # r' \<Rightarrow>
                    if isDigit c' then Some (digit_val c * 10 + digit_val c', r')
                    else if fixed then None else Some (digit_val c, r)))"

text \<open>The variables \<^verbatim>\<open>year\<close>, \<^verbatim>\<open>month\<close>, ... that \<^verbatim>\<open>Parse\<close> fills while it reads the value.\<close>

record fields =
  f_year :: int
  f_month :: int
  f_day :: int
  f_hour :: int
  f_min :: int
  f_sec :: int
  f_nsec :: int

definition commaOrPeriod :: "char \<Rightarrow> bool" where
  "commaOrPeriod c = (c = CHR ''.'' \<or> c = CHR '','')"

text \<open>
  \<^verbatim>\<open>parseNanoseconds(value, nbytes)\<close>, called on a value that begins with a comma or a
  period and \<open>nbytes - 1\<close> digits: digits after the ninth are dropped.
\<close>

definition parseNanoseconds :: "string \<Rightarrow> nat \<Rightarrow> int" where
  "parseNanoseconds v nbytes =
     (let nbytes = (if 10 < nbytes then 10 else nbytes);
          ns = digits_val (take (nbytes - 1) (tl v))
      in ns * 10 ^ (10 - nbytes))"

text \<open>
  One element of the layout against the value: the new fields and the value left, or
  \<open>None\<close> for an error. The year is four digits, month, day, minute and second are two
  digits, the hour is one or two. Month, hour, minute and second are checked against
  their ranges here; the day is checked at the end. After the seconds a fractional second
  is read when the value has one, though the layout has none.
\<close>

definition parse_std :: "std \<Rightarrow> string \<Rightarrow> fields \<Rightarrow> (fields \<times> string) option" where
  "parse_std st v f =
     (case st of
        stdLongYear \<Rightarrow>
          if length v < 4 \<or> \<not> isDigit (hd v) then None
          else if \<not> (\<forall>c \<in> set (take 4 v). isDigit c) then None
          else Some (f\<lparr>f_year := digits_val (take 4 v)\<rparr>, drop 4 v)
      | stdZeroMonth \<Rightarrow>
          (case getnum v True of
             None \<Rightarrow> None
           | Some (m, v') \<Rightarrow> if m \<le> 0 \<or> 12 < m then None else Some (f\<lparr>f_month := m\<rparr>, v'))
      | stdZeroDay \<Rightarrow>
          (case getnum v True of
             None \<Rightarrow> None
           | Some (d, v') \<Rightarrow> Some (f\<lparr>f_day := d\<rparr>, v'))
      | stdHour \<Rightarrow>
          (case getnum v False of
             None \<Rightarrow> None
           | Some (h, v') \<Rightarrow> if h < 0 \<or> 24 \<le> h then None else Some (f\<lparr>f_hour := h\<rparr>, v'))
      | stdZeroMinute \<Rightarrow>
          (case getnum v True of
             None \<Rightarrow> None
           | Some (m, v') \<Rightarrow> if m < 0 \<or> 60 \<le> m then None else Some (f\<lparr>f_min := m\<rparr>, v'))
      | stdZeroSecond \<Rightarrow>
          (case getnum v True of
             None \<Rightarrow> None
           | Some (s, v') \<Rightarrow>
               if s < 0 \<or> 60 \<le> s then None
               else if 2 \<le> length v' \<and> commaOrPeriod (hd v') \<and> isDigit (v' ! 1) then
                 let n = 1 + length (takeWhile isDigit (tl v'))
                 in Some (f\<lparr>f_sec := s, f_nsec := parseNanoseconds v' n\<rparr>, drop n v')
               else Some (f\<lparr>f_sec := s\<rparr>, v'))
      | stdUnmodelled \<Rightarrow> None)"

text \<open>The loop of \<^verbatim>\<open>Parse\<close> ends because each element shortens the layout.\<close>

lemma nextStdChunk_shorter:
  "nextStdChunk l = (prefix, Some st, suffix) \<Longrightarrow> length suffix < length l"
proof (induction l arbitrary: prefix)
  case Nil
  then show ?case by simp
next
  case (Cons c l)
  show ?case
  proof (cases "std_at (c # l)")
    case None
    with Cons.prems obtain p where "nextStdChunk l = (p, Some st, suffix)"
      by (auto split: prod.splits)
    from Cons.IH [OF this] show ?thesis by simp
  next
    case (Some a)
    then obtain s n where a: "a = (s, n)" by (cases a)
    with Some have "0 < n" by (auto simp: std_at_def split: if_splits)
    with Some a Cons.prems show ?thesis by auto
  qed
qed

function parse_loop :: "string \<Rightarrow> string \<Rightarrow> fields \<Rightarrow> fields option" where
  "parse_loop layout v f =
     (case nextStdChunk layout of (prefix, std, suffix) \<Rightarrow>
        (case skip v prefix of
           None \<Rightarrow> None
         | Some v \<Rightarrow>
             (case std of
                None \<Rightarrow> if v = [] then Some f else None
              | Some st \<Rightarrow>
                  (case parse_std st v f of
                     None \<Rightarrow> None
                   | Some (f', v') \<Rightarrow> parse_loop suffix v' f'))))"
  by pat_completeness auto
termination
  by (relation "measure (\<lambda>(layout, v, f). length layout)")
     (auto dest: nextStdChunk_shorter[OF sym])

text \<open>The elements of a layout, in order.\<close>

function layout_stds :: "string \<Rightarrow> std list" where
  "layout_stds layout =
     (case nextStdChunk layout of (prefix, std, suffix) \<Rightarrow>
        (case std of
           None \<Rightarrow> []
         | Some st \<Rightarrow> st # layout_stds suffix))"
  by pat_completeness auto
termination
  by (relation "measure length") (auto dest: nextStdChunk_shorter [OF sym])

text \<open>
  The fields \<^verbatim>\<open>Parse\<close> ends with: the loop starts from year 0 and an unset month and
  day, which default to January and 1; the day must exist in the month of the year read
  (the year 0 is a leap year).
\<close>

definition parse :: "string \<Rightarrow> string \<Rightarrow> fields option" where
  "parse layout v =
     (case parse_loop layout v \<lparr>f_year = 0, f_month = - 1, f_day = - 1, f_hour = 0,
                               f_min = 0, f_sec = 0, f_nsec = 0\<rparr> of
        None \<Rightarrow> None
      | Some f \<Rightarrow>
          let month = (if f_month f < 0 then 1 else f_month f);
              day = (if f_day f < 0 then 1 else f_day f)
          in if day < 1 \<or> daysIn month (f_year f) < day then None
             else Some (f\<lparr>f_month := month, f_day := day\<rparr>))"

text \<open>\<^verbatim>\<open>time.ParseInLocation\<close>: the fields parsed, as a date in the location.\<close>

definition fields_Date :: "fields \<Rightarrow> Location \<Rightarrow> Time" where
  "fields_Date f loc =
     Date (f_year f) (f_month f) (f_day f) (f_hour f) (f_min f) (f_sec f) (f_nsec f) loc"

definition ParseInLocation :: "string \<Rightarrow> string \<Rightarrow> Location \<Rightarrow> Time option" where
  "ParseInLocation layout v loc = map_option (\<lambda>f. fields_Date f loc) (parse layout v)"

text \<open>
  The ranges that the parser has checked once it returns: the clock fields, and the month
  when the layout has one (\<open>- 1\<close> marks a month not seen).
\<close>

definition clock_ok :: "fields \<Rightarrow> bool" where
  "clock_ok f \<longleftrightarrow>
     0 \<le> f_hour f \<and> f_hour f < 24 \<and> 0 \<le> f_min f \<and> f_min f < 60
     \<and> 0 \<le> f_sec f \<and> f_sec f < 60 \<and> 0 \<le> f_nsec f \<and> f_nsec f < 1000000000
     \<and> (f_month f = - 1 \<or> 1 \<le> f_month f \<and> f_month f \<le> 12)"

declare parse_loop.simps [simp del] layout_stds.simps [simp del] SkipSpace.simps [simp del]

subsection \<open>waituntil\<close>

text \<open>
  The constants \<^verbatim>\<open>full\<close>, \<^verbatim>\<open>noyear\<close> and \<^verbatim>\<open>nomonth\<close>, the type \<^verbatim>\<open>tSpec\<close> and the table
  \<^verbatim>\<open>specs\<close> of the program.
\<close>

definition full :: int where "full = 0"
definition noyear :: int where "noyear = 1"
definition nomonth :: int where "nomonth = 2"

record tSpec =
  spec :: string
  lacks :: int

definition specs :: "tSpec list" where
  "specs =
     [\<lparr>spec = ''2006-01-02 15:04'', lacks = full\<rparr>,
      \<lparr>spec = ''2006-01-02 15:04:05'', lacks = full\<rparr>,
      \<lparr>spec = ''2006-01-02'', lacks = full\<rparr>,
      \<lparr>spec = ''01-02 15:04'', lacks = noyear\<rparr>,
      \<lparr>spec = ''01-02 15:04:05'', lacks = noyear\<rparr>,
      \<lparr>spec = ''01-02'', lacks = noyear\<rparr>,
      \<lparr>spec = ''02 15:04'', lacks = nomonth\<rparr>,
      \<lparr>spec = ''02 15:04:05'', lacks = nomonth\<rparr>,
      \<lparr>spec = ''02'', lacks = nomonth\<rparr>]"

text \<open>
  \<^verbatim>\<open>parseHHMM\<close>. \<open>scanHHMM\<close> is its first part, the two calls of \<^verbatim>\<open>Sscanf\<close>: the second
  call scans the text again from its start and sets the seconds to 0. \<open>now\<close> is the
  value of \<^verbatim>\<open>time.Now()\<close> and \<open>loc\<close> the local zone. The error of \<^verbatim>\<open>Sscanf\<close> is
  \<open>ScanError\<close>; the error of \<^verbatim>\<open>parseTime\<close> is \<open>CannotParse\<close>.
\<close>

datatype error = ScanError | CannotParse

text \<open>
  The seconds that follow the minute in a text, as the two calls of \<^verbatim>\<open>Sscanf\<close> leave
  them: the integer after a colon, 0 when the rest of the text is anything else.
\<close>

definition seconds_after :: "string \<Rightarrow> int" where
  "seconds_after s =
     (case s of
        [] \<Rightarrow> 0
      | c # s' \<Rightarrow> if c = CHR '':'' then (case scanInt s' of None \<Rightarrow> 0 | Some (x, r) \<Rightarrow> x) else 0)"

definition scanHHMM :: "string \<Rightarrow> (int \<times> int \<times> int) option" where
  "scanHHMM tspec =
     (case doScanf fmt_hms tspec of
        Some [hr, mi, secs] \<Rightarrow> Some (hr, mi, secs)
      | _ \<Rightarrow>
          (case doScanf fmt_hm tspec of
             Some [hr, mi] \<Rightarrow> Some (hr, mi, 0)
           | _ \<Rightarrow> None))"

definition parseHHMM :: "Time \<Rightarrow> Location \<Rightarrow> string \<Rightarrow> error + Time" where
  "parseHHMM now loc tspec =
     (case scanHHMM tspec of
        None \<Rightarrow> Inl ScanError
      | Some (hr, mi, secs) \<Rightarrow>
          let tgt = Date (Time_Year now loc) (Time_Month now loc) (Time_Day now loc)
                         hr mi secs 0 loc
          in if Time_Hour now loc = hr \<and> Time_Minute now loc = mi \<and> secs \<le> Time_Second now loc
             then Inr tgt
             else if Before tgt now then Inr (Add tgt (Hour * 24))
             else Inr tgt)"

text \<open>
  \<^verbatim>\<open>parseTime\<close>: the body of the loop over \<^verbatim>\<open>specs\<close> after a successful parse
  (\<open>complete\<close>), the loop (\<open>parseSpecs\<close>), and the function. Each path calls
  \<^verbatim>\<open>time.Now()\<close> once, \<^verbatim>\<open>parseHHMM\<close> only after its scan has succeeded, so one sample
  \<open>now\<close> serves both.
\<close>

definition complete :: "Time \<Rightarrow> Location \<Rightarrow> tSpec \<Rightarrow> Time \<Rightarrow> Time" where
  "complete now loc sp t =
     (let t = (if noyear \<le> lacks sp then AddDate t loc (Time_Year now loc) 0 0 else t);
          t = (if nomonth \<le> lacks sp then AddDate t loc 0 (Time_Month now loc - 1) 0 else t)
      in t)"

fun parseSpecs :: "Time \<Rightarrow> Location \<Rightarrow> string \<Rightarrow> tSpec list \<Rightarrow> error + Time" where
  "parseSpecs now loc tspec [] = Inl CannotParse"
| "parseSpecs now loc tspec (sp # rest) =
     (case ParseInLocation (spec sp) tspec loc of
        None \<Rightarrow> parseSpecs now loc tspec rest
      | Some t \<Rightarrow> Inr (complete now loc sp t))"

definition parseTime :: "Time \<Rightarrow> Location \<Rightarrow> string \<Rightarrow> error + Time" where
  "parseTime now loc tspec =
     (case parseHHMM now loc tspec of
        Inr t \<Rightarrow> Inr t
      | Inl e \<Rightarrow> parseSpecs now loc tspec specs)"

subsection \<open>Zones with transitions\<close>

text \<open>
  \<^verbatim>\<open>time.Local\<close> is in general a zone whose offset changes at transitions. A \<open>Zone\<close> is
  its \<^verbatim>\<open>lookup\<close>: for an instant, in seconds since 0001-01-01 00:00:00 UTC, the offset in
  force (seconds east of UTC) and the start and the end of the period in which it is in
  force. Go's sentinels \<^verbatim>\<open>alpha\<close> and \<^verbatim>\<open>omega\<close>, for a period without a beginning or
  without an end, are \<open>None\<close>. \<open>FixedZone\<close> is \<^verbatim>\<open>time.FixedZone\<close>: one offset, for ever.
\<close>

type_synonym Zone = "int \<Rightarrow> int \<times> int option \<times> int option"

definition FixedZone :: "int \<Rightarrow> Zone" where
  "FixedZone offset sec = (offset, None, None)"

text \<open>
  \<^verbatim>\<open>time.Date\<close> in a zone. The fields are normalised and counted as in \<open>Date\<close>, which
  gives the wall-clock reading in seconds. Go looks the zone up at this reading taken as
  an instant of UTC; when the offset found is not 0 it is subtracted, and when the instant
  so obtained lies outside the period of that offset the zone is looked up again, at that
  instant.
\<close>

definition Date_zone :: "int \<Rightarrow> int \<Rightarrow> int \<Rightarrow> int \<Rightarrow> int \<Rightarrow> int \<Rightarrow> int \<Rightarrow> Zone \<Rightarrow> Time" where
  "Date_zone year month day hour minute sec nsec zone =
     (let (year, m) = norm_go year (month - 1) 12;
          month = m + 1;
          (sec, nsec) = norm_go sec nsec 1000000000;
          (minute, sec) = norm_go minute sec 60;
          (hour, minute) = norm_go hour minute 60;
          (day, hour) = norm_go day hour 24;
          d = civil_days year month day;
          abs = d * 86400 + (hour * 3600 + minute * 60 + sec);
          unix = abs;
          (offset, start, end) = zone unix;
          unix =
            (if offset \<noteq> 0 then
               (let utc = unix - offset;
                    offset =
                      (if (case start of None \<Rightarrow> False | Some s \<Rightarrow> utc < s)
                          \<or> (case end of None \<Rightarrow> False | Some e \<Rightarrow> e \<le> utc)
                       then fst (zone utc) else offset)
                in unix - offset)
             else unix)
      in unix * 1000000000 + nsec)"

text \<open>
  The fields of an instant in a zone: \<^verbatim>\<open>t.abs()\<close> adds the offset in force at the instant
  itself.
\<close>

definition absSec_zone :: "Time \<Rightarrow> Zone \<Rightarrow> int" where
  "absSec_zone t zone = (let sec = t div 1000000000 in sec + fst (zone sec))"

definition Year_zone :: "Time \<Rightarrow> Zone \<Rightarrow> int" where
  "Year_zone t zone = fst (absDate (absSec_zone t zone div 86400))"

definition Month_zone :: "Time \<Rightarrow> Zone \<Rightarrow> int" where
  "Month_zone t zone = fst (snd (absDate (absSec_zone t zone div 86400)))"

definition Day_zone :: "Time \<Rightarrow> Zone \<Rightarrow> int" where
  "Day_zone t zone = snd (snd (absDate (absSec_zone t zone div 86400)))"

definition Hour_zone :: "Time \<Rightarrow> Zone \<Rightarrow> int" where
  "Hour_zone t zone = (absSec_zone t zone mod 86400) div 3600"

definition Minute_zone :: "Time \<Rightarrow> Zone \<Rightarrow> int" where
  "Minute_zone t zone = (absSec_zone t zone mod 3600) div 60"

definition Second_zone :: "Time \<Rightarrow> Zone \<Rightarrow> int" where
  "Second_zone t zone = absSec_zone t zone mod 60"

text \<open>
  \<^verbatim>\<open>parseHHMM\<close> and \<^verbatim>\<open>parseTime\<close> in a zone: the definitions of the subsection
  before this one, with every date built and every field read in the zone.
\<close>

definition parseHHMM_zone :: "Time \<Rightarrow> Zone \<Rightarrow> string \<Rightarrow> error + Time" where
  "parseHHMM_zone now zone tspec =
     (case scanHHMM tspec of
        None \<Rightarrow> Inl ScanError
      | Some (hr, mi, secs) \<Rightarrow>
          let tgt = Date_zone (Year_zone now zone) (Month_zone now zone) (Day_zone now zone)
                              hr mi secs 0 zone
          in if Hour_zone now zone = hr \<and> Minute_zone now zone = mi \<and> secs \<le> Second_zone now zone
             then Inr tgt
             else if Before tgt now then Inr (Add tgt (Hour * 24))
             else Inr tgt)"

definition AddDate_zone :: "Time \<Rightarrow> Zone \<Rightarrow> int \<Rightarrow> int \<Rightarrow> int \<Rightarrow> Time" where
  "AddDate_zone t zone years months days =
     Date_zone (Year_zone t zone + years) (Month_zone t zone + months) (Day_zone t zone + days)
               (Hour_zone t zone) (Minute_zone t zone) (Second_zone t zone) (Time_Nanosecond t)
               zone"

definition ParseInLocation_zone :: "string \<Rightarrow> string \<Rightarrow> Zone \<Rightarrow> Time option" where
  "ParseInLocation_zone layout v zone =
     map_option
       (\<lambda>f. Date_zone (f_year f) (f_month f) (f_day f) (f_hour f) (f_min f) (f_sec f) (f_nsec f)
                      zone)
       (parse layout v)"

definition complete_zone :: "Time \<Rightarrow> Zone \<Rightarrow> tSpec \<Rightarrow> Time \<Rightarrow> Time" where
  "complete_zone now zone sp t =
     (let t = (if noyear \<le> lacks sp then AddDate_zone t zone (Year_zone now zone) 0 0 else t);
          t = (if nomonth \<le> lacks sp then AddDate_zone t zone 0 (Month_zone now zone - 1) 0
               else t)
      in t)"

fun parseSpecs_zone :: "Time \<Rightarrow> Zone \<Rightarrow> string \<Rightarrow> tSpec list \<Rightarrow> error + Time" where
  "parseSpecs_zone now zone tspec [] = Inl CannotParse"
| "parseSpecs_zone now zone tspec (sp # rest) =
     (case ParseInLocation_zone (spec sp) tspec zone of
        None \<Rightarrow> parseSpecs_zone now zone tspec rest
      | Some t \<Rightarrow> Inr (complete_zone now zone sp t))"

definition parseTime_zone :: "Time \<Rightarrow> Zone \<Rightarrow> string \<Rightarrow> error + Time" where
  "parseTime_zone now zone tspec =
     (case parseHHMM_zone now zone tspec of
        Inr t \<Rightarrow> Inr t
      | Inl e \<Rightarrow> parseSpecs_zone now zone tspec specs)"

text \<open>
  An example of a zone: New York around the end of daylight saving time in 2024, four
  hours west of UTC before 2024-11-03 06:00:00 UTC and five hours after.
\<close>

definition New_York_2024 :: Zone where
  "New_York_2024 sec =
     (let transition = Date 2024 11 3 6 0 0 0 0 div 1000000000
      in if sec < transition then (- 14400, None, Some transition)
         else (- 18000, Some transition, None))"


section \<open>Properties of the wait loop\<close>

lemmas duration_defs = Second_def Minute_def Hour_def maxDuration_def minDuration_def

lemmas wait_step_defs = wait_step_def After_def Sub_def Let_def duration_defs

text \<open>
  Claim C1. In every iteration in which the loop sleeps, which is every iteration with
  a remaining time \<open>tgt - now\<close> of at least one second, the duration slept is one hour
  when more than two hours remain, half the remaining time when more than one minute and
  at most two hours remain, and the remaining time itself when at most one minute
  remains. The saturation of \<^verbatim>\<open>Sub\<close> never changes the choice, so the statement is
  in terms of the exact difference.
\<close>

theorem wait_step_sleep_duration:
  "wait_step tgt now =
     (if tgt - now < Second then Return
      else Sleep (if 2 * Hour < tgt - now then Hour
                  else if Minute < tgt - now then (tgt - now) div 2
                  else tgt - now))"
  by (auto simp: wait_step_defs)

theorem wait_step_sleep_duration_witness:
  "wait_step (10 * Hour) 0 = Sleep Hour
   \<and> wait_step (90 * Minute) 0 = Sleep (45 * Minute)
   \<and> wait_step (30 * Second) 0 = Sleep (30 * Second)
   \<and> wait_step (700 * 1000000) 0 = Return"
  using wait_step_sleep_duration [of "10 * Hour" 0]
    wait_step_sleep_duration [of "90 * Minute" 0]
    wait_step_sleep_duration [of "30 * Second" 0]
    wait_step_sleep_duration [of "700 * 1000000" 0]
  by (simp add: duration_defs)

lemma wait_step_Return_iff:
  "wait_step tgt now = Return \<longleftrightarrow> tgt \<le> now \<or> tgt - now < Second"
  by (auto simp: wait_step_defs)

lemma wait_loop_sleeps_bounded:
  "wait_loop tgt clock = Some ds \<Longrightarrow> d \<in> set ds \<Longrightarrow> 0 < d \<and> d \<le> Hour"
proof (induction clock arbitrary: ds)
  case Nil
  then show ?case by simp
next
  case (Cons now clock)
  show ?case
  proof (cases "wait_step tgt now")
    case Return
    with Cons.prems show ?thesis by simp
  next
    case (Sleep d0)
    with Cons.prems obtain ds' where ds': "wait_loop tgt clock = Some ds'" "ds = d0 # ds'"
      by auto
    from Cons.prems(2) ds'(2) consider "d = d0" | "d \<in> set ds'" by auto
    then show ?thesis
    proof cases
      case 1
      with wait_step_Sleep_bounds(1,2) [OF Sleep] show ?thesis by simp
    next
      case 2
      with Cons.IH [OF ds'(1)] show ?thesis .
    qed
  qed
qed

text \<open>
  Claim C2. An iteration returns without sleeping exactly when the sample of the clock is
  at or after the target or less than one second remains; otherwise it sleeps for a
  duration that is strictly positive and at most one hour. A sample \<open>now'\<close> taken after
  the clock has jumped back (to any instant at or before an earlier sample \<open>now\<close> at which
  the loop slept) leaves at least as much remaining time, and the loop sleeps again, for
  a positive duration of at most one hour. Along any sequence of clock samples, every
  duration slept is positive and at most one hour.
\<close>

theorem wait_step_returns_or_sleeps:
  "(wait_step tgt now = Return \<longleftrightarrow> tgt \<le> now \<or> tgt - now < Second)
   \<and> (\<forall>d. wait_step tgt now = Sleep d \<longrightarrow> 0 < d \<and> d \<le> Hour)
   \<and> (\<forall>d now'. wait_step tgt now = Sleep d \<and> now' \<le> now \<longrightarrow>
         tgt - now \<le> tgt - now'
         \<and> (\<exists>d'. wait_step tgt now' = Sleep d' \<and> 0 < d' \<and> d' \<le> Hour))
   \<and> (\<forall>clock ds. wait_loop tgt clock = Some ds \<longrightarrow> (\<forall>d \<in> set ds. 0 < d \<and> d \<le> Hour))"
proof (intro conjI allI impI ballI)
  show "wait_step tgt now = Return \<longleftrightarrow> tgt \<le> now \<or> tgt - now < Second"
    by (rule wait_step_Return_iff)
next
  fix d assume "wait_step tgt now = Sleep d"
  from wait_step_Sleep_bounds(1,2) [OF this] show "0 < d" and "d \<le> Hour" .
next
  fix d now' assume a: "wait_step tgt now = Sleep d \<and> now' \<le> now"
  then show "tgt - now \<le> tgt - now'" by simp
  from a have "Second \<le> tgt - now" using wait_step_Sleep_bounds(4) by blast
  with a have "\<not> (tgt \<le> now' \<or> tgt - now' < Second)" by (simp add: Second_def)
  then have "wait_step tgt now' \<noteq> Return" by (simp only: wait_step_Return_iff not_False_eq_True)
  then obtain d' where d': "wait_step tgt now' = Sleep d'" by (cases "wait_step tgt now'") auto
  from wait_step_Sleep_bounds(1,2) [OF d'] d'
  show "\<exists>d'. wait_step tgt now' = Sleep d' \<and> 0 < d' \<and> d' \<le> Hour" by blast
next
  fix clock ds d assume "wait_loop tgt clock = Some ds" "d \<in> set ds"
  from wait_loop_sleeps_bounded [OF this] show "0 < d" and "d \<le> Hour" by simp_all
qed

theorem wait_step_returns_or_sleeps_witness:
  "wait_step (10 * Hour) (4 * Hour) = Sleep Hour \<and> 1 * Hour \<le> 4 * Hour
   \<and> (\<exists>d'. wait_step (10 * Hour) (1 * Hour) = Sleep d' \<and> 0 < d' \<and> d' \<le> Hour)
   \<and> wait_loop (10 * Hour) [4 * Hour, 1 * Hour, 9 * Hour, 10 * Hour]
        = Some [Hour, Hour, 30 * Minute]
   \<and> 0 < 30 * Minute \<and> 30 * Minute \<le> Hour
   \<and> wait_step (10 * Hour) (10 * Hour) = Return"
proof -
  have s: "wait_step (10 * Hour) (4 * Hour) = Sleep Hour" by (simp add: wait_step_defs)
  have j: "1 * Hour \<le> 4 * Hour" by (simp add: duration_defs)
  have l: "wait_loop (10 * Hour) [4 * Hour, 1 * Hour, 9 * Hour, 10 * Hour]
             = Some [Hour, Hour, 30 * Minute]"
    by (simp add: wait_step_defs)
  from wait_step_returns_or_sleeps [of "10 * Hour" "4 * Hour"] s j
  have "\<exists>d'. wait_step (10 * Hour) (1 * Hour) = Sleep d' \<and> 0 < d' \<and> d' \<le> Hour"
    by blast
  moreover from wait_step_returns_or_sleeps [of "10 * Hour" "4 * Hour"] l
  have "\<forall>d \<in> set [Hour, Hour, 30 * Minute]. 0 < d \<and> d \<le> Hour"
    by blast
  then have "0 < 30 * Minute \<and> 30 * Minute \<le> Hour" by simp
  moreover from wait_step_returns_or_sleeps [of "10 * Hour" "10 * Hour"]
  have "wait_step (10 * Hour) (10 * Hour) = Return" by simp
  ultimately show ?thesis using s j l by blast
qed

subsection \<open>The stable clock\<close>

lemma wait_step_shift: "wait_step (tgt + k) (now + k) = wait_step tgt now"
  by (simp add: wait_step_def After_def Sub_def)

lemma wait_stable_shift: "wait_stable (tgt + k) (now + k) = wait_stable tgt now"
proof (induction tgt now rule: wait_stable.induct)
  case (1 tgt now)
  show ?case
  proof (cases "wait_step tgt now")
    case Return
    then show ?thesis using wait_step_shift [of tgt k now] by simp
  next
    case (Sleep d)
    have "wait_stable (tgt + k) (now + k) = d # wait_stable (tgt + k) (now + k + d)"
      using Sleep wait_step_shift [of tgt k now] by simp
    also have "now + k + d = now + d + k" by simp
    also have "wait_stable (tgt + k) (now + d + k) = wait_stable tgt (now + d)"
      by (rule 1 [OF Sleep])
    finally show ?thesis using Sleep by simp
  qed
qed

lemma wait_stable_slept_total:
  "tgt - now < Second + int (length (wait_stable tgt now)) * Hour"
proof (induction tgt now rule: wait_stable.induct)
  case (1 tgt now)
  show ?case
  proof (cases "wait_step tgt now")
    case Return
    then show ?thesis
      by (auto simp: wait_step_defs split: if_splits)
  next
    case (Sleep d)
    from 1 [OF Sleep] wait_step_Sleep_bounds [OF Sleep] Sleep show ?thesis
      by (simp add: algebra_simps)
  qed
qed

lemma wait_stable_length_lower:
  "nat ((tgt - now) div Hour) \<le> length (wait_stable tgt now)"
proof -
  have "tgt - now < (int (length (wait_stable tgt now)) + 1) * Hour"
    using wait_stable_slept_total [of tgt now] by (simp add: duration_defs algebra_simps)
  then have "(tgt - now) div Hour < int (length (wait_stable tgt now)) + 1"
    by (simp add: div_less_iff_less_mult Hour_def Minute_def Second_def)
  then show ?thesis by simp
qed

lemma wait_stable_halving:
  "tgt - now \<le> 2 * Hour \<Longrightarrow> tgt - now \<le> Minute * 2 ^ k
   \<Longrightarrow> length (wait_stable tgt now) \<le> k + 1"
proof (induction k arbitrary: now)
  case 0
  show ?case
  proof (cases "wait_step tgt now")
    case Return
    then show ?thesis by simp
  next
    case (Sleep d)
    with 0 have "d = tgt - now" by (auto simp: wait_step_defs split: if_splits)
    then have "wait_step tgt (now + d) = Return" by (simp add: wait_step_defs)
    with Sleep show ?thesis by simp
  qed
next
  case (Suc k)
  show ?case
  proof (cases "wait_step tgt now")
    case Return
    then show ?thesis by simp
  next
    case (Sleep d)
    show ?thesis
    proof (cases "Minute < tgt - now")
      case True
      with Sleep Suc.prems have d: "d = (tgt - now) div 2"
        by (auto simp: wait_step_defs split: if_splits)
      have "tgt - (now + d) \<le> 2 * Hour"
        using d Suc.prems(1) wait_step_Sleep_bounds [OF Sleep] by simp
      moreover have "tgt - (now + d) \<le> Minute * 2 ^ k"
        using d Suc.prems(2) by (simp add: Minute_def Second_def)
      ultimately have "length (wait_stable tgt (now + d)) \<le> k + 1" by (rule Suc.IH)
      with Sleep show ?thesis by simp
    next
      case False
      with Sleep have "d = tgt - now" by (auto simp: wait_step_defs split: if_splits)
      then have "wait_step tgt (now + d) = Return" by (simp add: wait_step_defs)
      with Sleep show ?thesis by simp
    qed
  qed
qed

lemma wait_stable_length_upper:
  "length (wait_stable tgt now) \<le> nat ((tgt - now) div Hour) + 8"
proof (induction tgt now rule: wait_stable.induct)
  case (1 tgt now)
  show ?case
  proof (cases "2 * Hour < tgt - now")
    case False
    then have "length (wait_stable tgt now) \<le> 7 + 1"
      by (intro wait_stable_halving) (simp_all add: duration_defs)
    then show ?thesis by simp
  next
    case True
    then have s: "wait_step tgt now = Sleep Hour" by (simp add: wait_step_defs)
    have "(tgt - (now + Hour)) div Hour = (tgt - now) div Hour - 1"
      by (simp add: duration_defs div_eq_minus1 algebra_simps)
    moreover have "1 \<le> (tgt - now) div Hour" using True
      by (simp add: duration_defs pos_imp_zdiv_pos_iff)
    ultimately have "nat ((tgt - (now + Hour)) div Hour) + 1 = nat ((tgt - now) div Hour)"
      by simp
    with 1 [OF s] s show ?thesis by simp
  qed
qed

lemma wait_loop_stable_clock:
  "wait_loop tgt (stable_clock now (wait_stable tgt now)) = Some (wait_stable tgt now)"
proof (induction tgt now rule: wait_stable.induct)
  case (1 tgt now)
  show ?case
  proof (cases "wait_step tgt now")
    case Return
    then show ?thesis by simp
  next
    case (Sleep d)
    with 1 [OF Sleep] show ?thesis by simp
  qed
qed

lemma wait_stable_ten_hours: "length (wait_stable (10 * Hour) 0) = 16"
  by (simp add: wait_step_defs)

lemma square_below_power: "c * (c + 13) < 128 * (2::nat) ^ c"
proof (induction c)
  case 0
  show ?case by simp
next
  case (Suc c)
  have "c < 2 ^ c" by (rule less_exp)
  then have "2 * c + 14 \<le> 128 * (2::nat) ^ c" by linarith
  moreover have "Suc c * (Suc c + 13) = c * (c + 13) + (2 * c + 14)"
    by (simp add: algebra_simps)
  ultimately show ?case using Suc by simp
qed

text \<open>
  Claim C3, as stated, fails: the number of sleeps is not bounded by any constant
  multiple of the logarithm of the wait in minutes. Whatever the constant \<open>c\<close>, some
  target of at least one minute needs more than \<open>c * floorlog 2 (T div Minute)\<close> sleeps
  under the stable clock (\<open>floorlog 2 n\<close> is \<open>\<lfloor>log\<^sub>2 n\<rfloor> + 1\<close>), because every sleep
  is capped at one hour.
\<close>

theorem wait_stable_not_logarithmic:
  "\<not> (\<exists>c. \<forall>T. Minute \<le> T \<longrightarrow>
          length (wait_stable T 0) \<le> c * floorlog 2 (nat (T div Minute)))"
proof
  assume "\<exists>c. \<forall>T. Minute \<le> T \<longrightarrow>
            length (wait_stable T 0) \<le> c * floorlog 2 (nat (T div Minute))"
  then obtain c where c: "\<And>T. Minute \<le> T \<Longrightarrow>
      length (wait_stable T 0) \<le> c * floorlog 2 (nat (T div Minute))"
    by blast
  define n :: nat where "n = 128 * 2 ^ c"
  define T where "T = int n * Hour"
  have n1: "1 \<le> n" by (simp add: n_def)
  have "1 * Minute \<le> int n * Hour"
    using n1 unfolding Hour_def Minute_def Second_def by simp
  then have "Minute \<le> T" by (simp add: T_def)
  from c [OF this]
  have 1: "length (wait_stable T 0) \<le> c * floorlog 2 (nat (T div Minute))" .
  have "nat (T div Minute) = 60 * n" by (simp add: T_def duration_defs nat_mult_distrib)
  moreover have "floorlog 2 (60 * n) \<le> c + 13"
  proof (rule floorlog_leI)
    show "60 * n < 2 ^ (c + 13)" by (simp add: n_def power_add)
  qed simp_all
  ultimately have 2: "length (wait_stable T 0) \<le> c * (c + 13)" using 1
    by (metis le_trans mult_le_mono2)
  have "nat (T div Hour) = n" by (simp add: T_def duration_defs)
  with wait_stable_length_lower [of T 0] have "n \<le> length (wait_stable T 0)" by simp
  with 2 square_below_power [of c] show False by (simp add: n_def)
qed

text \<open>
  Claim C3, amended. Under a stable clock the loop returns for every target and every
  starting instant: run against the samples of the stable clock it ends with the list of
  sleeps that \<open>wait_stable\<close> computes. With \<open>T = tgt - now\<close>, the number of sleeps is at
  least \<open>T div Hour\<close> and at most \<open>T div Hour + 8\<close>, so it grows linearly with the wait
  once the wait exceeds two hours; it is logarithmic only below that: a wait of at most
  two hours and at most \<open>2 ^ k\<close> minutes takes at most \<open>k + 1\<close> sleeps. A target ten hours
  ahead takes exactly 16 sleeps.
\<close>

theorem wait_stable_terminates_bounds:
  "wait_loop tgt (stable_clock now (wait_stable tgt now)) = Some (wait_stable tgt now)
   \<and> nat ((tgt - now) div Hour) \<le> length (wait_stable tgt now)
   \<and> length (wait_stable tgt now) \<le> nat ((tgt - now) div Hour) + 8
   \<and> (\<forall>k. tgt - now \<le> 2 * Hour \<and> tgt - now \<le> Minute * 2 ^ k
          \<longrightarrow> length (wait_stable tgt now) \<le> k + 1)
   \<and> length (wait_stable (now + 10 * Hour) now) = 16"
proof (intro conjI allI impI)
  show "wait_loop tgt (stable_clock now (wait_stable tgt now)) = Some (wait_stable tgt now)"
    by (rule wait_loop_stable_clock)
  show "nat ((tgt - now) div Hour) \<le> length (wait_stable tgt now)"
    by (rule wait_stable_length_lower)
  show "length (wait_stable tgt now) \<le> nat ((tgt - now) div Hour) + 8"
    by (rule wait_stable_length_upper)
  show "length (wait_stable tgt now) \<le> k + 1"
    if "tgt - now \<le> 2 * Hour \<and> tgt - now \<le> Minute * 2 ^ k" for k
    using that wait_stable_halving by blast
  have "wait_stable (10 * Hour + now) (0 + now) = wait_stable (10 * Hour) 0"
    by (rule wait_stable_shift)
  then show "length (wait_stable (now + 10 * Hour) now) = 16"
    using wait_stable_ten_hours by (simp add: add.commute)
qed

theorem wait_stable_terminates_bounds_witness:
  "90 * Minute - 0 \<le> 2 * Hour \<and> 90 * Minute - 0 \<le> Minute * 2 ^ 7
   \<and> length (wait_stable (90 * Minute) 0) \<le> 7 + 1
   \<and> wait_loop (90 * Minute) (stable_clock 0 (wait_stable (90 * Minute) 0))
       = Some (wait_stable (90 * Minute) 0)"
proof -
  have h: "90 * Minute - 0 \<le> 2 * Hour \<and> 90 * Minute - 0 \<le> Minute * 2 ^ 7"
    by (simp add: duration_defs)
  with wait_stable_terminates_bounds [of "90 * Minute" 0]
  have "length (wait_stable (90 * Minute) 0) \<le> 7 + 1" by blast
  with h wait_stable_terminates_bounds [of "90 * Minute" 0] show ?thesis by blast
qed

section \<open>The calendar: dates and their fields\<close>

lemma div_uniq: 
  fixes q r b :: int
  assumes "0 \<le> r" "r < b" shows "(b * q + r) div b = q"
proof -
  have b: "b \<noteq> 0" using assms by linarith
  have "(b * q + r) div b = q + r div b" by (rule div_mult_self4[OF b])
  also have "r div b = 0" by (rule div_pos_pos_trivial[OF assms])
  finally show ?thesis by (simp only: add_0_right)
qed

lemma absYear_core:
  fixes q a b c yd :: int
  assumes a: "0 \<le> a" "a \<le> 3" and b: "0 \<le> b" "b \<le> 24" and c: "0 \<le> c" "c \<le> 3"
    and yd: "0 \<le> yd" "yd < (if c = 3 \<and> (b \<noteq> 24 \<or> a = 3) then 366 else 365)"
  shows "absYear (146097 * q + 36524 * a + 1461 * b + 365 * c + yd)
           = (400 * q + 100 * a + 4 * b + c + 1, yd)"
proof -
  define X where "X = 36524 * a + 1461 * b + 365 * c + yd"
  define X2 where "X2 = 1461 * b + 365 * c + yd"
  define X3 where "X3 = 365 * c + yd"
  have X: "0 \<le> X" "X < 146097" using a b c yd by (auto simp: X_def split: if_splits)
  have d0: "(146097 * q + 36524 * a + 1461 * b + 365 * c + yd) div 146097 = q"
    using div_uniq[OF X, of q] by (simp add: X_def algebra_simps)
  have X2: "0 \<le> X2" "X2 < 36524 \<or> (a = 3 \<and> X2 \<le> 36524)" 
    using a b c yd by (auto simp: X2_def split: if_splits)
  have n100: "X div 36524 - (X div 36524) div 4 = a"
  proof (cases "X2 < 36524")
    case True
    have "(36524 * a + X2) div 36524 = a" using div_uniq[OF X2(1) True] .
    then have "X div 36524 = a" by (simp add: X_def X2_def algebra_simps)
    then show ?thesis using a by simp
  next
    case False
    then have "a = 3" "X2 = 36524" using X2 by auto
    then have "X = 36524 * 4" by (simp add: X_def X2_def)
    then show ?thesis using \<open>a = 3\<close> by simp
  qed
  have X3: "0 \<le> X3" "X3 < 1461" using c yd by (auto simp: X3_def split: if_splits)
  have n4: "X2 div 1461 = b" using div_uniq[OF X3, of b] by (simp add: X2_def X3_def algebra_simps)
  have n1: "X3 div 365 - (X3 div 365) div 4 = c"
  proof (cases "yd < 365")
    case True
    have "(365 * c + yd) div 365 = c" using div_uniq[OF yd(1) True] .
    then show ?thesis using c by (simp add: X3_def)
  next
    case False
    then have "c = 3" "yd = 365" using yd by (auto split: if_splits)
    then show ?thesis by (simp add: X3_def)
  qed
  have e1: "146097 * q + 36524 * a + 1461 * b + 365 * c + yd - 146097 * q = X" by (simp add: X_def)
  have e2: "X - 36524 * a = X2" by (simp add: X_def X2_def)
  have e3: "X2 - 1461 * b = X3" by (simp add: X2_def X3_def)
  have e4: "X3 - 365 * c = yd" by (simp add: X3_def)
  define D where "D = 146097 * q + 36524 * a + 1461 * b + 365 * c + yd"
  have h0: "D div 146097 = q" using d0 by (simp add: D_def)
  have h1: "D - 146097 * q = X" using e1 by (simp add: D_def)
  have "absYear D = (400 * q + 100 * a + 4 * b + c + 1, yd)"
    apply (simp only: absYear_def Let_def h0 h1 n100 e2 n4 e3 n1 e4)
    done
  then show ?thesis unfolding D_def .
qed


lemma daysSinceEpoch_decomp:
  "daysSinceEpoch y = 146097 * ((y - 1) div 400) + 36524 * (((y - 1) mod 400) div 100)
      + 1461 * (((y - 1) mod 100) div 4) + 365 * ((y - 1) mod 4)"
proof -
  have 1: "y - 1 - 400 * ((y - 1) div 400) = (y - 1) mod 400" by (simp add: minus_mult_div_eq_mod)
  have "(y - 1) mod 400 mod 100 = (y - 1) mod 100" by (simp add: mod_mod_cancel)
  then have 2: "(y - 1) mod 400 - 100 * ((y - 1) mod 400 div 100) = (y - 1) mod 100"
    by (simp add: minus_mult_div_eq_mod)
  have "(y - 1) mod 100 mod 4 = (y - 1) mod 4" by (simp add: mod_mod_cancel)
  then have 3: "(y - 1) mod 100 - 4 * ((y - 1) mod 100 div 4) = (y - 1) mod 4"
    by (simp add: minus_mult_div_eq_mod)
  show ?thesis unfolding daysSinceEpoch_def Let_def 1 2 3 by simp
qed

lemma succ_mod_zero:
  fixes z n :: int
  assumes n: "0 < n"
  shows "(z + 1) mod n = 0 \<longleftrightarrow> z mod n = n - 1"
proof -
  have r: "0 \<le> z mod n" "z mod n < n" using n by simp_all
  have e: "(z + 1) mod n = (z mod n + 1) mod n" by (simp add: mod_add_left_eq)
  show ?thesis
  proof (cases "z mod n = n - 1")
    case True
    then show ?thesis using e by simp
  next
    case False
    with r have "z mod n + 1 < n" "0 \<le> z mod n + 1" by linarith+
    then have "(z mod n + 1) mod n = z mod n + 1" by (simp only: mod_pos_pos_trivial)
    with e r False show ?thesis by linarith
  qed
qed

lemma split_mods:
  fixes z :: int
  shows "z mod 100 = 4 * (z mod 100 div 4) + z mod 4"
    and "z mod 400 = 100 * (z mod 400 div 100) + z mod 100"
    and "z = 400 * (z div 400) + z mod 400"
proof -
  have "z mod 100 mod 4 = z mod 4" by (rule mod_mod_cancel) simp
  then show "z mod 100 = 4 * (z mod 100 div 4) + z mod 4"
    using mult_div_mod_eq[of 4 "z mod 100"] by linarith
  have "z mod 400 mod 100 = z mod 100" by (rule mod_mod_cancel) simp
  then show "z mod 400 = 100 * (z mod 400 div 100) + z mod 100"
    using mult_div_mod_eq[of 100 "z mod 400"] by linarith
  show "z = 400 * (z div 400) + z mod 400"
    using mult_div_mod_eq[of 400 z] by linarith
qed


lemma small_arith:
  fixes a b c m :: int
  assumes "0 \<le> c" "c \<le> 3" "0 \<le> m" "m \<le> 99"
  shows "4 * b + c = 99 \<longleftrightarrow> b = 24 \<and> c = 3"
    and "100 * a + m = 399 \<longleftrightarrow> a = 3 \<and> m = 99"
  using assms by arith+

lemma div_bound: "(x::int) \<le> n \<Longrightarrow> 0 < b \<Longrightarrow> n div b = k \<Longrightarrow> x div b \<le> k"
  using zdiv_mono1 by blast

lemma mod_bounds:
  fixes z :: int
  shows "0 \<le> z mod 4" "z mod 4 \<le> 3" "0 \<le> z mod 100" "z mod 100 \<le> 99"
   "0 \<le> z mod 400" "z mod 400 \<le> 399"
proof -
  show "0 \<le> z mod 4" "0 \<le> z mod 100" "0 \<le> z mod 400" by (rule pos_mod_sign, simp)+
  have "z mod 4 < 4" "z mod 100 < 100" "z mod 400 < 400" by (rule pos_mod_bound, simp)+
  then show "z mod 4 \<le> 3" "z mod 100 \<le> 99" "z mod 400 \<le> 399" by linarith+
qed

lemma t2: "((y::int) - 1) mod 400 div 100 \<le> 3"
  by (rule div_bound[OF mod_bounds(6)]) simp_all

lemma t3: "((y::int) - 1) mod 100 div 4 \<le> 24"
  by (rule div_bound[OF mod_bounds(4)]) simp_all

lemma isLeap_decomp:
  "isLeap y \<longleftrightarrow> (y - 1) mod 4 = 3 \<and> (((y - 1) mod 100) div 4 \<noteq> 24 \<or> ((y - 1) mod 400) div 100 = 3)"
proof -
  define z where "z = y - 1"
  have y: "y = z + 1" by (simp add: z_def)
  have 4: "y mod 4 = 0 \<longleftrightarrow> z mod 4 = 3" unfolding y using succ_mod_zero[of 4 z] by simp
  have "y mod 100 = 0 \<longleftrightarrow> z mod 100 = 99" unfolding y using succ_mod_zero[of 100 z] by simp
  also have "\<dots> \<longleftrightarrow> 4 * (z mod 100 div 4) + z mod 4 = 99" using split_mods(1)[of z] by simp
  also have "\<dots> \<longleftrightarrow> z mod 100 div 4 = 24 \<and> z mod 4 = 3"
    by (rule small_arith(1)[OF mod_bounds(1,2,3,4)])
  finally have 100: "y mod 100 = 0 \<longleftrightarrow> z mod 100 div 4 = 24 \<and> z mod 4 = 3" .
  have "y mod 400 = 0 \<longleftrightarrow> z mod 400 = 399" unfolding y using succ_mod_zero[of 400 z] by simp
  also have "\<dots> \<longleftrightarrow> 100 * (z mod 400 div 100) + z mod 100 = 399" using split_mods(2)[of z] by simp
  also have "\<dots> \<longleftrightarrow> z mod 400 div 100 = 3 \<and> z mod 100 = 99"
    by (rule small_arith(2)[OF mod_bounds(1,2,3,4)])
  finally have 400: "y mod 400 = 0 \<longleftrightarrow> z mod 400 div 100 = 3 \<and> z mod 100 = 99" .
  have 99: "z mod 100 = 99 \<longleftrightarrow> z mod 100 div 4 = 24 \<and> z mod 4 = 3"
    using 100 succ_mod_zero[of 100 z] unfolding y by simp
  show ?thesis unfolding isLeap_def 4 100 400 99 z_def[symmetric] by blast
qed

lemma year_decomp: "400 * ((y - 1) div 400) + 100 * (((y - 1) mod 400) div 100)
      + 4 * (((y - 1) mod 100) div 4) + ((y - 1) mod 4) + 1 = (y::int)"
  using split_mods[of "y - 1"] by linarith

lemma absYear_roundtrip:
  assumes "0 \<le> yd" "yd < (if isLeap y then 366 else 365)"
  shows "absYear (daysSinceEpoch y + yd) = (y, yd)"
proof -
  let ?q = "(y - 1) div 400" and ?a = "((y - 1) mod 400) div 100"
  and ?b = "((y - 1) mod 100) div 4" and ?c = "(y - 1) mod 4"
  have a: "0 \<le> ?a" "?a \<le> 3" by (simp add: pos_imp_zdiv_nonneg_iff, rule t2)
  have b: "0 \<le> ?b" "?b \<le> 24" by (simp add: pos_imp_zdiv_nonneg_iff, rule t3)
  note yd = assms(2)[unfolded isLeap_decomp]
  have "absYear (146097 * ?q + 36524 * ?a + 1461 * ?b + 365 * ?c + yd)
           = (400 * ?q + 100 * ?a + 4 * ?b + ?c + 1, yd)"
    by (rule absYear_core[OF a b mod_bounds(1,2) assms(1) yd])
  then have "absYear (146097 * ?q + 36524 * ?a + 1461 * ?b + 365 * ?c + yd) = (y, yd)"
    by (simp only: year_decomp)
  then show ?thesis by (simp only: daysSinceEpoch_decomp)
qed

lemma div31:
  fixes x j :: int
  assumes "31 * j \<le> x" "x < 31 * j + 31"
  shows "x div 31 = j"
proof -
  have "(31 * j + (x - 31 * j)) div 31 = j + (x - 31 * j) div 31"
    by (rule div_mult_self4) simp
  moreover have "(x - 31 * j) div 31 = 0"
    by (rule div_pos_pos_trivial) (use assms in linarith)+
  ultimately show ?thesis by simp
qed

lemma month_index_cases:
  fixes k :: int
  assumes "0 \<le> k" "k \<le> 11"
  obtains "k = 0" | "k = 1" | "k = 2" | "k = 3" | "k = 4" | "k = 5"
        | "k = 6" | "k = 7" | "k = 8" | "k = 9" | "k = 10" | "k = 11"
proof -
  have "k = 0 \<or> k = 1 \<or> k = 2 \<or> k = 3 \<or> k = 4 \<or> k = 5
      \<or> k = 6 \<or> k = 7 \<or> k = 8 \<or> k = 9 \<or> k = 10 \<or> k = 11"
    using assms by presburger
  then show thesis using that by blast
qed

lemma daysBefore_table:
  fixes k :: int
  assumes "0 \<le> k" "k \<le> 11"
  shows "31 * k - 31 \<le> daysBefore ! nat k"
    and "daysBefore ! nat (k + 1) \<le> 31 * k + 31"
    and "daysBefore ! nat k < daysBefore ! nat (k + 1)"
    and "daysBefore ! nat (k + 1) \<le> 365"
    and "0 \<le> daysBefore ! nat k"
    and "2 \<le> k \<Longrightarrow> 59 \<le> daysBefore ! nat k"
    and "k \<le> 1 \<Longrightarrow> daysBefore ! nat (k + 1) \<le> 59"
    and "k = 1 \<Longrightarrow> daysBefore ! nat k = 31"
  using assms by (cases k rule: month_index_cases; simp add: daysBefore_def)+

lemma monthEstimate_eq:
  fixes k day :: int
  assumes k: "0 \<le> k" "k \<le> 11"
    and day: "daysBefore ! nat k \<le> day" "day < daysBefore ! nat (k + 1)"
  shows "(let month = day div 31;
              end = daysBefore ! nat (month + 1);
              (month, begin) =
                 (if end \<le> day then (month + 1, end) else (month, daysBefore ! nat month))
          in (year :: int, month + 1, day - begin + 1))
         = (year, k + 1, day - daysBefore ! nat k + 1)"
proof (cases "day < 31 * k")
  case True
  have "31 * (k - 1) \<le> day" unfolding right_diff_distrib using daysBefore_table(1)[OF k] day(1) by linarith
  with True have d: "day div 31 = k - 1" by (intro div31) simp_all
  have k1: "1 \<le> k" using True day(1) daysBefore_table(5)[OF k] by linarith
  then have n: "nat (k - 1 + 1) = nat k" by simp
  show ?thesis unfolding d Let_def n using day(1) by simp
next
  case False
  have "day < 31 * k + 31" using daysBefore_table(2)[OF k] day(2) by linarith
  with False have d: "day div 31 = k" by (intro div31) simp_all
  show ?thesis unfolding d Let_def using day(2) by simp
qed

lemma daysIn_eq:
  fixes m :: int
  assumes "1 \<le> m" "m \<le> 12"
  shows "daysBefore ! nat (m - 1) + daysIn m y = daysBefore ! nat m + (if m = 2 \<and> isLeap y then 1 else 0)"
proof -
  have "0 \<le> m - 1" "m - 1 \<le> 11" using assms by simp_all
  then show ?thesis
    by (cases "m - 1" rule: month_index_cases)
       (simp_all add: daysIn_def daysBefore_def isLeap_def)
qed

lemma absDate_roundtrip:
  fixes y m d :: int
  assumes m: "1 \<le> m" "m \<le> 12" and d: "1 \<le> d" "d \<le> daysIn m y"
  shows "absDate (daysSinceEpoch y + daysBefore ! nat (m - 1)
                  + (if isLeap y \<and> 3 \<le> m then 1 else 0) + (d - 1)) = (y, m, d)"
proof -
  define k where "k = m - 1"
  have k: "0 \<le> k" "k \<le> 11" using m by (simp_all add: k_def)
  have mk: "m = k + 1" by (simp add: k_def)
  define B where "B = daysBefore ! nat k"
  define B' where "B' = daysBefore ! nat (k + 1)"
  define adj :: int where "adj = (if isLeap y \<and> 3 \<le> m then 1 else 0)"
  define yd where "yd = B + adj + (d - 1)"
  note tb = daysBefore_table[OF k, folded B_def B'_def]
  have din: "B + daysIn m y = B' + (if m = 2 \<and> isLeap y then 1 else 0)"
    using daysIn_eq[OF m, of y] by (simp add: B_def B'_def k_def mk[symmetric])
  have yd0: "0 \<le> yd" using tb(5) d(1) by (simp add: yd_def adj_def)
  have ydu: "yd < (if isLeap y then 366 else 365)"
    using tb(4) d(2) din by (auto simp: yd_def adj_def split: if_splits)
  have ay: "absYear (daysSinceEpoch y + yd) = (y, yd)"
    by (rule absYear_roundtrip[OF yd0 ydu])
  have arg: "daysSinceEpoch y + daysBefore ! nat (m - 1) + (if isLeap y \<and> 3 \<le> m then 1 else 0) + (d - 1)
      = daysSinceEpoch y + yd"
    by (simp add: yd_def B_def adj_def k_def)
  show ?thesis
  proof (cases "isLeap y \<and> yd = 59")
    case True
    have "m = 2 \<and> d = 29"
    proof (cases "3 \<le> m")
      case True
      then have "59 \<le> B" using tb(6) by (simp add: k_def)
      with True \<open>isLeap y \<and> yd = 59\<close> d(1) show ?thesis by (auto simp add: yd_def adj_def)
    next
      case False
      show ?thesis
      proof (cases "m = 2")
        case True
        then have "B = 31" using tb(8) by (simp add: k_def)
        with True \<open>isLeap y \<and> yd = 59\<close> show ?thesis by (simp add: yd_def adj_def)
      next
        case False
        with \<open>\<not> 3 \<le> m\<close> m have m1: "m = 1" by linarith
        then have "B = 0" by (simp add: B_def k_def daysBefore_def)
        moreover have "daysIn m y = 31" using m1 by (simp add: daysIn_def daysBefore_def)
        ultimately show ?thesis using True d(2) m1 by (simp add: yd_def adj_def)
      qed
    qed
    with True show ?thesis unfolding arg absDate_def ay by simp
  next
    case False
    define day where "day = (if isLeap y \<and> yd > 31 + 29 - 1 then yd - 1 else yd)"
    have dayB: "day = B + (d - 1)"
    proof (cases "3 \<le> m")
      case True
      then have "59 \<le> B" using tb(6) by (simp add: k_def)
      with True d(1) show ?thesis by (auto simp: day_def yd_def adj_def)
    next
      case nm: False
      then have k1: "k \<le> 1" by (simp add: k_def)
      have "B + daysIn m y \<le> 59 + (if m = 2 \<and> isLeap y then 1 else 0)"
        using din tb(7)[OF k1] by simp
      with d(2) have "yd \<le> 59" using nm by (auto simp: yd_def adj_def split: if_splits)
      with False nm show ?thesis by (auto simp: day_def yd_def adj_def)
    qed
    have lo: "daysBefore ! nat k \<le> day" using d(1) by (simp add: dayB B_def)
    have "d \<le> daysBefore ! nat m - daysBefore ! nat (m - 1)"
    proof (cases "m = 2 \<and> isLeap y")
      case True
      then have "B = 31" using tb(8) by (simp add: k_def)
      with True False have "d \<noteq> 29" by (auto simp: yd_def adj_def)
      moreover have "daysIn m y = 29" using True by (simp add: daysIn_def)
      moreover have "daysBefore ! nat m - daysBefore ! nat (m - 1) = 28"
        using True by (simp add: daysBefore_def)
      ultimately show ?thesis using d(2) by linarith
    next
      case False
      then show ?thesis using d(2) by (auto simp add: daysIn_def)
    qed
    then have hi: "day < daysBefore ! nat (k + 1)"
      by (simp add: dayB B_def k_def)
    have "absDate (daysSinceEpoch y + yd) = (y, k + 1, day - daysBefore ! nat k + 1)"
    proof -
      have nl: "(isLeap y \<and> yd = 31 + 29 - 1) = False" using False by simp
      note F = monthEstimate_eq[OF k lo hi, of y, unfolded Let_def day_def]
      show ?thesis
        unfolding absDate_def ay Let_def prod.case nl if_False day_def
        by (rule F)
    qed
    then show ?thesis unfolding arg by (simp add: dayB B_def mk)
  qed
qed

lemma norm_go_id: "0 \<le> lo \<Longrightarrow> lo < base \<Longrightarrow> norm_go hi lo base = (hi, lo)"
  by (simp add: norm_go_def)

lemma divmod_uniq:
  fixes q r b :: int
  assumes "0 \<le> r" "r < b"
  shows "(b * q + r) div b = q" and "(b * q + r) mod b = r"
proof -
  show "(b * q + r) div b = q" by (rule div_uniq [OF assms])
  have "(b * q + r) mod b = r mod b" by simp
  also have "\<dots> = r" by (rule mod_pos_pos_trivial [OF assms])
  finally show "(b * q + r) mod b = r" .
qed

lemma Date_in_range:
  assumes "1 \<le> m" "m \<le> 12" "0 \<le> h" "h < 24" "0 \<le> mi" "mi < 60" "0 \<le> s" "s < 60"
    "0 \<le> ns" "ns < 1000000000"
  shows "Date y m d h mi s ns loc
    = (civil_days y m d * 86400 + (h * 3600 + mi * 60 + s) - loc) * 1000000000 + ns"
proof -
  have 1: "norm_go y (m - 1) 12 = (y, m - 1)" using assms by (intro norm_go_id) simp_all
  have 2: "norm_go s ns 1000000000 = (s, ns)" using assms by (intro norm_go_id) simp_all
  have 3: "norm_go mi s 60 = (mi, s)" using assms by (intro norm_go_id) simp_all
  have 4: "norm_go h mi 60 = (h, mi)" using assms by (intro norm_go_id) simp_all
  have 5: "norm_go d h 24 = (d, h)" using assms by (intro norm_go_id) simp_all
  show ?thesis
    unfolding Date_def 1 2 3 4 5 Let_def prod.case by simp
qed

lemma absSec_Date:
  assumes "1 \<le> m" "m \<le> 12" "0 \<le> h" "h < 24" "0 \<le> mi" "mi < 60" "0 \<le> s" "s < 60"
    "0 \<le> ns" "ns < 1000000000"
  shows "absSec (Date y m d h mi s ns loc) loc = 86400 * civil_days y m d + (h * 3600 + mi * 60 + s)"
    and "Time_Nanosecond (Date y m d h mi s ns loc) = ns"
proof -
  let ?u = "civil_days y m d * 86400 + (h * 3600 + mi * 60 + s) - loc"
  have D: "Date y m d h mi s ns loc = 1000000000 * ?u + ns"
    using Date_in_range [OF assms] by simp
  have "(1000000000 * ?u + ns) div 1000000000 = ?u"
    by (rule divmod_uniq(1)) (use assms in simp_all)
  then show "absSec (Date y m d h mi s ns loc) loc = 86400 * civil_days y m d + (h * 3600 + mi * 60 + s)"
    unfolding absSec_def D by simp
  have "(1000000000 * ?u + ns) mod 1000000000 = ns"
    by (rule divmod_uniq(2)) (use assms in simp_all)
  then show "Time_Nanosecond (Date y m d h mi s ns loc) = ns"
    unfolding Time_Nanosecond_def D by simp
qed

lemma clock_fields:
  fixes D h mi s :: int
  assumes "0 \<le> h" "h < 24" "0 \<le> mi" "mi < 60" "0 \<le> s" "s < 60"
  defines "a \<equiv> 86400 * D + (h * 3600 + mi * 60 + s)"
  shows "a div 86400 = D" and "a mod 86400 div 3600 = h" and "a mod 3600 div 60 = mi"
    and "a mod 60 = s"
proof -
  have t: "0 \<le> h * 3600 + mi * 60 + s" "h * 3600 + mi * 60 + s < 86400"
    using assms by linarith+
  show "a div 86400 = D" unfolding a_def by (rule divmod_uniq(1) [OF t])
  have "a mod 86400 = h * 3600 + mi * 60 + s" unfolding a_def by (rule divmod_uniq(2) [OF t])
  also have "\<dots> = 3600 * h + (mi * 60 + s)" by simp
  finally have m: "a mod 86400 = 3600 * h + (mi * 60 + s)" .
  have u: "0 \<le> mi * 60 + s" "mi * 60 + s < 3600" using assms by linarith+
  show "a mod 86400 div 3600 = h" unfolding m by (rule divmod_uniq(1) [OF u])
  have "a = 3600 * (24 * D + h) + (mi * 60 + s)" by (simp add: a_def)
  then have "a mod 3600 = mi * 60 + s" using divmod_uniq(2) [OF u, of "24 * D + h"] by simp
  also have "\<dots> = 60 * mi + s" by simp
  finally have m2: "a mod 3600 = 60 * mi + s" .
  show "a mod 3600 div 60 = mi" unfolding m2 by (rule divmod_uniq(1)) (use assms in simp_all)
  have e: "a = 60 * (1440 * D + 60 * h + mi) + s" by (simp add: a_def)
  have "(60 * (1440 * D + 60 * h + mi) + s) mod 60 = s"
    by (rule divmod_uniq(2)) (use assms in simp_all)
  then show "a mod 60 = s" by (simp only: e)
qed

lemma Date_fields:
  assumes m: "1 \<le> m" "m \<le> 12" and d: "1 \<le> d" "d \<le> daysIn m y"
    and t: "0 \<le> h" "h < 24" "0 \<le> mi" "mi < 60" "0 \<le> s" "s < 60"
    and n: "0 \<le> ns" "ns < 1000000000"
  shows "Time_Year (Date y m d h mi s ns loc) loc = y"
    and "Time_Month (Date y m d h mi s ns loc) loc = m"
    and "Time_Day (Date y m d h mi s ns loc) loc = d"
    and "Time_Hour (Date y m d h mi s ns loc) loc = h"
    and "Time_Minute (Date y m d h mi s ns loc) loc = mi"
    and "Time_Second (Date y m d h mi s ns loc) loc = s"
    and "Time_Nanosecond (Date y m d h mi s ns loc) = ns"
proof -
  note a = absSec_Date [OF m t n, of y d loc]
  note c = clock_fields [OF t, of "civil_days y m d"]
  have ad: "absDate (civil_days y m d) = (y, m, d)"
    unfolding civil_days_def by (rule absDate_roundtrip [OF m d])
  show "Time_Year (Date y m d h mi s ns loc) loc = y"
    unfolding Time_Year_def a c ad by simp
  show "Time_Month (Date y m d h mi s ns loc) loc = m"
    unfolding Time_Month_def a c ad by simp
  show "Time_Day (Date y m d h mi s ns loc) loc = d"
    unfolding Time_Day_def a c ad by simp
  show "Time_Hour (Date y m d h mi s ns loc) loc = h"
    unfolding Time_Hour_def a c ..
  show "Time_Minute (Date y m d h mi s ns loc) loc = mi"
    unfolding Time_Minute_def a c ..
  show "Time_Second (Date y m d h mi s ns loc) loc = s"
    unfolding Time_Second_def a c ..
  show "Time_Nanosecond (Date y m d h mi s ns loc) = ns"
    by (rule a(2))
qed

lemma AddDate_Date:
  assumes m: "1 \<le> m" "m \<le> 12" and d: "1 \<le> d" "d \<le> daysIn m y"
    and t: "0 \<le> h" "h < 24" "0 \<le> mi" "mi < 60" "0 \<le> s" "s < 60"
    and n: "0 \<le> ns" "ns < 1000000000"
  shows "AddDate (Date y m d h mi s ns loc) loc years months days
       = Date (y + years) (m + months) (d + days) h mi s ns loc"
  unfolding AddDate_def Date_fields [OF assms] ..

subsection \<open>Every instant has valid fields\<close>









subsection \<open>Days beyond the end of the month\<close>








lemma norm_go_hi:
  "norm_go (hi + k) lo base = (fst (norm_go hi lo base) + k, snd (norm_go hi lo base))"
  by (simp add: norm_go_def Let_def)

lemma Date_next_day:
  "Date y m d h mi s ns loc + 24 * 3600 * Second = Date y m (d + 1) h mi s ns loc"
proof -
  obtain y' m' where 1: "norm_go y (m - 1) 12 = (y', m')" by (cases "norm_go y (m - 1) 12")
  obtain s' ns' where 2: "norm_go s ns 1000000000 = (s', ns')"
    by (cases "norm_go s ns 1000000000")
  obtain mi' s'' where 3: "norm_go mi s' 60 = (mi', s'')" by (cases "norm_go mi s' 60")
  obtain h' mi'' where 4: "norm_go h mi' 60 = (h', mi'')" by (cases "norm_go h mi' 60")
  obtain d' h'' where 5: "norm_go d h' 24 = (d', h'')" by (cases "norm_go d h' 24")
  have 6: "norm_go (d + 1) h' 24 = (d' + 1, h'')" using norm_go_hi [of d 1 h' 24] 5 by simp
  have c: "civil_days y' (m' + 1) (d' + 1) = civil_days y' (m' + 1) d' + 1"
    by (simp add: civil_days_def)
  show ?thesis
    unfolding Date_def 1 2 3 4 5 6 Let_def prod.case c by (simp add: Second_def)
qed

section \<open>Numbers, fields and layouts of the parser\<close>

lemma isDigit_cases:
  assumes "isDigit c"
  obtains "c = CHR ''0''" | "c = CHR ''1''" | "c = CHR ''2''" | "c = CHR ''3''" | "c = CHR ''4''"
    | "c = CHR ''5''" | "c = CHR ''6''" | "c = CHR ''7''" | "c = CHR ''8''" | "c = CHR ''9''"
  using assms unfolding isDigit_def by auto

lemma digit_val_bounds: "isDigit c \<Longrightarrow> 0 \<le> digit_val c \<and> digit_val c \<le> 9"
  by (erule isDigit_cases) (simp_all add: digit_val_def)

lemma getnum_bounds:
  assumes "getnum s fixed = Some (n, r)"
  shows "0 \<le> n" and "n \<le> 99"
proof -
  from assms obtain c r0 where s: "s = c # r0" and c: "isDigit c"
    by (auto simp: getnum_def split: list.splits if_splits)
  have "0 \<le> n \<and> n \<le> 99"
  proof (cases r0)
    case Nil
    with assms s c digit_val_bounds [OF c] show ?thesis
      by (auto simp: getnum_def split: if_splits)
  next
    case (Cons c' r')
    show ?thesis
    proof (cases "isDigit c'")
      case True
      with assms s c Cons digit_val_bounds [OF c] digit_val_bounds [OF True] show ?thesis
        by (auto simp: getnum_def)
    next
      case False
      with assms s c Cons digit_val_bounds [OF c] show ?thesis
        by (auto simp: getnum_def split: if_splits)
    qed
  qed
  then show "0 \<le> n" and "n \<le> 99" by simp_all
qed

lemma digits_val_snoc: "digits_val (ds @ [c]) = 10 * digits_val ds + digit_val c"
  by (simp add: digits_val_def)

lemma digits_val_bounds:
  "\<forall>c \<in> set ds. isDigit c \<Longrightarrow> 0 \<le> digits_val ds \<and> digits_val ds < 10 ^ length ds"
proof (induction ds rule: rev_induct)
  case Nil
  show ?case by (simp add: digits_val_def)
next
  case (snoc c ds)
  then have ih: "0 \<le> digits_val ds" "digits_val ds < 10 ^ length ds" by simp_all
  from snoc.prems have "isDigit c" by simp
  from digit_val_bounds [OF this] ih show ?case
    by (simp add: digits_val_snoc)
qed

lemma parseNanoseconds_bounds:
  assumes n: "n = 1 + length (takeWhile isDigit (tl v))"
  shows "0 \<le> parseNanoseconds v n \<and> parseNanoseconds v n < 1000000000"
proof -
  define k where "k = (if 10 < n then 10 else n) - 1"
  define ds where "ds = take k (tl v)"
  have kn: "k \<le> length (takeWhile isDigit (tl v))" "k \<le> 9" using n by (auto simp: k_def)
  have "ds = take k (takeWhile isDigit (tl v))"
    unfolding ds_def using kn(1)
    by (metis takeWhile_dropWhile_id take_append diff_is_0_eq' take_0 append_Nil2)
  then have dig: "\<forall>c \<in> set ds. isDigit c" and len: "length ds = k"
    using kn(1) by (auto dest: in_set_takeD set_takeWhileD)
  from digits_val_bounds [OF dig] len
  have b: "0 \<le> digits_val ds" "digits_val ds < 10 ^ k" by simp_all
  have e: "parseNanoseconds v n = digits_val ds * 10 ^ (9 - k)"
    using n by (auto simp: parseNanoseconds_def Let_def ds_def k_def)
  have "digits_val ds * 10 ^ (9 - k) < 10 ^ k * 10 ^ (9 - k)"
    using b(2) by simp
  also have "\<dots> = (10::int) ^ 9" using kn(2) by (simp flip: power_add)
  finally show ?thesis using b(1) e by simp
qed


lemma parse_std_clock_ok:
  assumes "parse_std st v f = Some (f', v')" "clock_ok f"
  shows "clock_ok f'"
proof (cases st)
  case stdZeroSecond
  from assms obtain s v1 where g: "getnum v True = Some (s, v1)" and s60: "s < 60"
    by (auto simp: parse_std_def stdZeroSecond split: option.splits if_splits)
  note sb = getnum_bounds [OF g]
  show ?thesis
  proof (cases "2 \<le> length v1 \<and> commaOrPeriod (hd v1) \<and> isDigit (v1 ! 1)")
    case True
    with assms g s60 sb
    have "f' = f\<lparr>f_sec := s,
        f_nsec := parseNanoseconds v1 (1 + length (takeWhile isDigit (tl v1)))\<rparr>"
      by (auto simp: parse_std_def stdZeroSecond Let_def)
    with parseNanoseconds_bounds [OF refl, of v1] assms(2) s60 sb show ?thesis
      by (simp add: clock_ok_def)
  next
    case False
    with assms g s60 sb have "f' = f\<lparr>f_sec := s\<rparr>"
      by (auto simp: parse_std_def stdZeroSecond Let_def)
    with assms(2) s60 sb show ?thesis by (simp add: clock_ok_def)
  qed
qed (use assms in \<open>auto simp: parse_std_def clock_ok_def split: option.splits if_splits
      dest: getnum_bounds\<close>)

lemma parse_std_year:
  "parse_std st v f = Some (f', v') \<Longrightarrow> st \<noteq> stdLongYear \<Longrightarrow> f_year f' = f_year f"
  by (cases st) (auto simp: parse_std_def Let_def split: option.splits if_splits)

lemma parse_std_month:
  "parse_std st v f = Some (f', v') \<Longrightarrow> st \<noteq> stdZeroMonth \<Longrightarrow> f_month f' = f_month f"
  by (cases st) (auto simp: parse_std_def Let_def split: option.splits if_splits)

lemma parse_loop_invariants:
  "parse_loop layout v f = Some f' \<Longrightarrow>
     (clock_ok f \<longrightarrow> clock_ok f')
     \<and> (stdLongYear \<notin> set (layout_stds layout) \<longrightarrow> f_year f' = f_year f)
     \<and> (stdZeroMonth \<notin> set (layout_stds layout) \<longrightarrow> f_month f' = f_month f)"
proof (induction layout v f rule: parse_loop.induct)
  case (1 layout v f)
  obtain prefix std suffix where c: "nextStdChunk layout = (prefix, std, suffix)"
    by (cases "nextStdChunk layout") auto
  note u = "1.prems" [unfolded parse_loop.simps [of layout v f] c prod.case]
  from u obtain v1 where v1: "skip v prefix = Some v1"
    by (auto split: option.splits)
  show ?case
  proof (cases std)
    case None
    with u v1 have "f' = f" by (auto split: if_splits)
    then show ?thesis by simp
  next
    case (Some st)
    with u v1 obtain f1 v2 where p: "parse_std st v1 f = Some (f1, v2)"
      and r: "parse_loop suffix v2 f1 = Some f'"
      by (auto split: option.splits)
    have ih: "(clock_ok f1 \<longrightarrow> clock_ok f')
     \<and> (stdLongYear \<notin> set (layout_stds suffix) \<longrightarrow> f_year f' = f_year f1)
     \<and> (stdZeroMonth \<notin> set (layout_stds suffix) \<longrightarrow> f_month f' = f_month f1)"
      by (rule "1.IH" [OF c [symmetric] refl v1 Some p refl r])
    have l: "layout_stds layout = st # layout_stds suffix"
      unfolding layout_stds.simps [of layout] c Some by simp
    show ?thesis
      using ih parse_std_clock_ok [OF p] parse_std_year [OF p] parse_std_month [OF p]
      unfolding l by auto
  qed
qed

lemmas layout_eval = layout_stds.simps std_at_def

lemma specs_layout_stds:
  "layout_stds ''2006-01-02 15:04'' = [stdLongYear, stdZeroMonth, stdZeroDay, stdHour, stdZeroMinute]"
  "layout_stds ''2006-01-02 15:04:05''
     = [stdLongYear, stdZeroMonth, stdZeroDay, stdHour, stdZeroMinute, stdZeroSecond]"
  "layout_stds ''2006-01-02'' = [stdLongYear, stdZeroMonth, stdZeroDay]"
  "layout_stds ''01-02 15:04'' = [stdZeroMonth, stdZeroDay, stdHour, stdZeroMinute]"
  "layout_stds ''01-02 15:04:05'' = [stdZeroMonth, stdZeroDay, stdHour, stdZeroMinute, stdZeroSecond]"
  "layout_stds ''01-02'' = [stdZeroMonth, stdZeroDay]"
  "layout_stds ''02 15:04'' = [stdZeroDay, stdHour, stdZeroMinute]"
  "layout_stds ''02 15:04:05'' = [stdZeroDay, stdHour, stdZeroMinute, stdZeroSecond]"
  "layout_stds ''02'' = [stdZeroDay]"
  by (simp_all add: layout_eval)

lemma specs_cases:
  assumes "sp \<in> set specs"
  obtains "lacks sp = full" "stdLongYear \<in> set (layout_stds (spec sp))"
  | "lacks sp = noyear" "stdLongYear \<notin> set (layout_stds (spec sp))"
      "stdZeroMonth \<in> set (layout_stds (spec sp))"
  | "lacks sp = nomonth" "stdLongYear \<notin> set (layout_stds (spec sp))"
      "stdZeroMonth \<notin> set (layout_stds (spec sp))"
  using assms unfolding specs_def by (auto simp: specs_layout_stds)

lemma parse_valid:
  assumes "parse layout v = Some f"
  shows "1 \<le> f_month f" "f_month f \<le> 12" "1 \<le> f_day f" "f_day f \<le> daysIn (f_month f) (f_year f)"
    "0 \<le> f_hour f" "f_hour f < 24" "0 \<le> f_min f" "f_min f < 60" "0 \<le> f_sec f" "f_sec f < 60"
    "0 \<le> f_nsec f" "f_nsec f < 1000000000"
    and "stdLongYear \<notin> set (layout_stds layout) \<Longrightarrow> f_year f = 0"
    and "stdZeroMonth \<notin> set (layout_stds layout) \<Longrightarrow> f_month f = 1"
proof -
  let ?f0 = "\<lparr>f_year = 0, f_month = - 1, f_day = - 1, f_hour = 0,
              f_min = 0, f_sec = 0, f_nsec = 0\<rparr>"
  from assms obtain g where g: "parse_loop layout v ?f0 = Some g"
    and f: "f = g\<lparr>f_month := (if f_month g < 0 then 1 else f_month g),
                 f_day := (if f_day g < 0 then 1 else f_day g)\<rparr>"
    and d: "1 \<le> f_day f" "f_day f \<le> daysIn (f_month f) (f_year f)"
    by (auto simp: parse_def Let_def split: option.splits if_splits)
  have "clock_ok ?f0" by (simp add: clock_ok_def)
  with parse_loop_invariants [OF g] have ok: "clock_ok g"
    and y: "stdLongYear \<notin> set (layout_stds layout) \<Longrightarrow> f_year g = 0"
    and m: "stdZeroMonth \<notin> set (layout_stds layout) \<Longrightarrow> f_month g = - 1"
    by simp_all
  from ok f show "1 \<le> f_month f" "f_month f \<le> 12"
    "0 \<le> f_hour f" "f_hour f < 24" "0 \<le> f_min f" "f_min f < 60" "0 \<le> f_sec f" "f_sec f < 60"
    "0 \<le> f_nsec f" "f_nsec f < 1000000000"
    by (auto simp: clock_ok_def)
  from d show "1 \<le> f_day f" "f_day f \<le> daysIn (f_month f) (f_year f)" .
  show "f_year f = 0" if "stdLongYear \<notin> set (layout_stds layout)"
    using y [OF that] f by simp
  show "f_month f = 1" if "stdZeroMonth \<notin> set (layout_stds layout)"
    using m [OF that] f by simp
qed

lemma ParseInLocation_eq:
  "ParseInLocation layout v loc = map_option (\<lambda>f. fields_Date f loc) (parse layout v)"
  by (simp add: ParseInLocation_def)

lemma AddDate_parsed:
  assumes "parse layout v = Some f"
  shows "AddDate (fields_Date f loc) loc years months days
     = Date (f_year f + years) (f_month f + months) (f_day f + days)
            (f_hour f) (f_min f) (f_sec f) (f_nsec f) loc"
  unfolding fields_Date_def
  by (rule AddDate_Date) (rule parse_valid [OF assms])+

lemma complete_parsed:
  assumes sp: "sp \<in> set specs" and p: "parse (spec sp) v = Some f"
  shows "complete now loc sp (fields_Date f loc)
     = Date (if noyear \<le> lacks sp then Time_Year now loc else f_year f)
            (if nomonth \<le> lacks sp then Time_Month now loc else f_month f)
            (f_day f) (f_hour f) (f_min f) (f_sec f) (f_nsec f) loc"
    and "noyear \<le> lacks sp \<Longrightarrow> f_year f = 0"
    and "nomonth \<le> lacks sp \<Longrightarrow> f_month f = 1"
proof -
  note v = parse_valid [OF p]
  from sp show "complete now loc sp (fields_Date f loc)
     = Date (if noyear \<le> lacks sp then Time_Year now loc else f_year f)
            (if nomonth \<le> lacks sp then Time_Month now loc else f_month f)
            (f_day f) (f_hour f) (f_min f) (f_sec f) (f_nsec f) loc"
  proof (cases rule: specs_cases)
    case 1
    then show ?thesis
      by (simp add: complete_def full_def noyear_def nomonth_def fields_Date_def)
  next
    case 2
    from v(13) [OF 2(2)] have y0: "f_year f = 0" .
    show ?thesis
      using 2(1) y0 AddDate_parsed [OF p, of loc "Time_Year now loc" 0 0]
      by (simp add: complete_def full_def noyear_def nomonth_def)
  next
    case 3
    from v(13) [OF 3(2)] v(14) [OF 3(3)] have y0: "f_year f = 0" and m1: "f_month f = 1" .
    have d31: "f_day f \<le> daysIn 1 (Time_Year now loc)"
      using v(4) m1 by (simp add: daysIn_def daysBefore_def)
    have a1: "AddDate (fields_Date f loc) loc (Time_Year now loc) 0 0
        = Date (Time_Year now loc) 1 (f_day f) (f_hour f) (f_min f) (f_sec f) (f_nsec f) loc"
      using AddDate_parsed [OF p, of loc "Time_Year now loc" 0 0] y0 m1 by simp
    have a2: "AddDate (Date (Time_Year now loc) 1 (f_day f) (f_hour f) (f_min f) (f_sec f)
                 (f_nsec f) loc) loc 0 (Time_Month now loc - 1) 0
        = Date (Time_Year now loc + 0) (1 + (Time_Month now loc - 1)) (f_day f + 0)
               (f_hour f) (f_min f) (f_sec f) (f_nsec f) loc"
      by (rule AddDate_Date) (use v d31 in simp_all)
    show ?thesis
      using 3(1) by (simp add: complete_def full_def noyear_def nomonth_def a1 a2)
  qed
  from sp show "f_year f = 0" if "noyear \<le> lacks sp"
    using that v(13) by (cases rule: specs_cases) (simp_all add: full_def noyear_def)
  from sp show "f_month f = 1" if "nomonth \<le> lacks sp"
    using that v(14) by (cases rule: specs_cases) (simp_all add: full_def noyear_def nomonth_def)
qed

lemma parseSpecs_first:
  assumes "\<forall>x \<in> set before. parse (spec x) v = None" "parse (spec sp) v = Some f"
  shows "parseSpecs now loc v (before @ sp # after) = Inr (complete now loc sp (fields_Date f loc))"
  using assms by (induction before) (simp_all add: ParseInLocation_eq)

lemma parseSpecs_error:
  "parseSpecs now loc v sps = Inl e \<longleftrightarrow> e = CannotParse \<and> (\<forall>x \<in> set sps. parse (spec x) v = None)"
  by (induction sps) (auto simp: ParseInLocation_eq split: option.splits)

lemma parseHHMM_cases:
  "parseHHMM now loc v = Inl e \<longleftrightarrow> e = ScanError \<and> scanHHMM v = None"
  by (auto simp: parseHHMM_def Let_def split: option.splits)

subsection \<open>The scanner\<close>

lemma space_width_digit: "isDigit c \<Longrightarrow> space_width (c # s) = 0"
  by (erule isDigit_cases) (simp_all add: space_width_def space_runes_def)

lemma SkipSpace_digit: "isDigit c \<Longrightarrow> SkipSpace (c # s) = Some (c # s)"
  by (frule space_width_digit [of c s], erule isDigit_cases) (simp_all add: SkipSpace.simps)

lemma SkipSpace_Nil: "SkipSpace [] = Some []"
  by (simp add: SkipSpace.simps)

lemma isDigit_not_sign: "isDigit c \<Longrightarrow> c \<noteq> CHR ''-'' \<and> c \<noteq> CHR ''+'' \<and> c \<noteq> CHR '':''"
  by (erule isDigit_cases) simp_all

lemma takeWhile_digits:
  assumes "\<forall>c \<in> set ds. isDigit c" "rest = [] \<or> \<not> isDigit (hd rest)"
  shows "takeWhile isDigit (ds @ rest) = ds" and "dropWhile isDigit (ds @ rest) = rest"
proof -
  have r: "takeWhile isDigit rest = []" "dropWhile isDigit rest = rest"
    using assms(2) by (cases rest; simp)+
  show "takeWhile isDigit (ds @ rest) = ds" using assms(1) r by (simp add: takeWhile_append2)
  show "dropWhile isDigit (ds @ rest) = rest" using assms(1) r by (simp add: dropWhile_append2)
qed

lemma scanInt_iff:
  "scanInt s = Some (v, rest) \<longleftrightarrow>
     (\<exists>sg ds. SkipSpace s = Some (sg @ ds @ rest) \<and> sg \<in> {[], ''+'', ''-''}
        \<and> ds \<noteq> [] \<and> (\<forall>c \<in> set ds. isDigit c) \<and> (rest = [] \<or> \<not> isDigit (hd rest))
        \<and> v = (if sg = ''-'' then - digits_val ds else digits_val ds)
        \<and> - (2 ^ 63) \<le> v \<and> v \<le> 2 ^ 63 - 1)"
  (is "?L \<longleftrightarrow> ?R")
proof
  assume ?L
  then obtain s1 where s1: "SkipSpace s = Some s1" "s1 \<noteq> []"
    by (auto simp: scanInt_def split: option.splits if_splits)
  define sg where "sg = (if hd s1 = CHR ''-'' then ''-'' else if hd s1 = CHR ''+'' then ''+'' else [])"
  define s2 where "s2 = (if hd s1 = CHR ''-'' \<or> hd s1 = CHR ''+'' then tl s1 else s1)"
  define ds where "ds = takeWhile isDigit s2"
  have e: "s1 = sg @ s2" using s1(2) by (cases s1) (auto simp: sg_def s2_def)
  have sg: "sg \<in> {[], ''+'', ''-''}" by (simp add: sg_def)
  from \<open>?L\<close> s1 have tok: "ds \<noteq> []" and rest: "rest = dropWhile isDigit s2"
    and v: "v = (if sg = ''-'' then - digits_val ds else digits_val ds)"
    and rng: "- (2 ^ 63) \<le> v" "v \<le> 2 ^ 63 - 1"
    by (auto simp: scanInt_def Let_def sg_def s2_def ds_def split: if_splits)
  have "s2 = ds @ rest" by (simp add: ds_def rest)
  moreover have "\<forall>c \<in> set ds. isDigit c" by (auto simp: ds_def dest: set_takeWhileD)
  moreover have "rest = [] \<or> \<not> isDigit (hd rest)"
    unfolding rest by (metis hd_dropWhile)
  ultimately show ?R using s1(1) e sg tok v rng by blast
next
  assume ?R
  then obtain sg ds where k: "SkipSpace s = Some (sg @ ds @ rest)" "sg \<in> {[], ''+'', ''-''}"
    "ds \<noteq> []" "\<forall>c \<in> set ds. isDigit c" "rest = [] \<or> \<not> isDigit (hd rest)"
    "v = (if sg = ''-'' then - digits_val ds else digits_val ds)"
    "- (2 ^ 63) \<le> v" "v \<le> 2 ^ 63 - 1"
    by blast
  note tw = takeWhile_digits [OF k(4,5)]
  from k(3,4) have hd: "isDigit (hd ds)" by (cases ds) auto
  from k(2) consider "sg = []" | "sg = ''+''" | "sg = ''-''" by auto
  then show ?L
  proof cases
    case 1
    with k(3) hd isDigit_not_sign [OF hd] have "hd (sg @ ds @ rest) \<noteq> CHR ''-''"
      "hd (sg @ ds @ rest) \<noteq> CHR ''+''" "sg @ ds @ rest \<noteq> []" by (cases ds; simp)+
    with k 1 tw show ?thesis by (simp add: scanInt_def Let_def)
  next
    case 2
    with k tw show ?thesis by (simp add: scanInt_def Let_def)
  next
    case 3
    with k tw show ?thesis by (simp add: scanInt_def Let_def)
  qed
qed

lemma scanInt_digits:
  assumes "ds \<noteq> []" "\<forall>c \<in> set ds. isDigit c" "length ds \<le> 18"
    and "rest = [] \<or> \<not> isDigit (hd rest)"
  shows "scanInt (ds @ rest) = Some (digits_val ds, rest)"
proof -
  from assms(1,2) obtain c t where ds: "ds = c # t" "isDigit c" by (cases ds) auto
  then have sk: "SkipSpace (ds @ rest) = Some ([] @ ds @ rest)"
    using SkipSpace_digit [of c "t @ rest"] by simp
  from digits_val_bounds [OF assms(2)]
  have b: "0 \<le> digits_val ds" "digits_val ds < 10 ^ length ds" by simp_all
  have "(10::int) ^ length ds \<le> 10 ^ 18" using assms(3) by (intro power_increasing) simp_all
  with b have r: "- (2 ^ 63) \<le> digits_val ds" "digits_val ds \<le> 2 ^ 63 - 1" by simp_all
  show ?thesis
    unfolding scanInt_iff using sk assms(1,2,4) r by (intro exI [of _ "[]"] exI [of _ ds]) simp
qed

lemma doScanf_hm:
  "doScanf fmt_hm s = Some r \<longleftrightarrow>
     (\<exists>hr mi s1 s2. scanInt s = Some (hr, CHR '':'' # s1) \<and> scanInt s1 = Some (mi, s2)
        \<and> r = [hr, mi])"
  by (auto simp: fmt_hm_def split: option.splits list.splits if_splits)

lemma doScanf_hms:
  "doScanf fmt_hms s = Some r \<longleftrightarrow>
     (\<exists>hr mi secs s1 s3 s4. scanInt s = Some (hr, CHR '':'' # s1)
        \<and> scanInt s1 = Some (mi, CHR '':'' # s3) \<and> scanInt s3 = Some (secs, s4)
        \<and> r = [hr, mi, secs])"
  by (auto simp: fmt_hms_def split: option.splits list.splits if_splits)

lemma scanHHMM_iff:
  "scanHHMM s = Some (hr, mi, secs) \<longleftrightarrow>
     (\<exists>s1 s2. scanInt s = Some (hr, CHR '':'' # s1) \<and> scanInt s1 = Some (mi, s2)
        \<and> secs = seconds_after s2)"
proof (cases "doScanf fmt_hms s")
  case None
  have n: "seconds_after s2 = 0"
    if "scanInt s = Some (h, CHR '':'' # s1)" "scanInt s1 = Some (m, s2)" for h m s1 s2
  proof (rule ccontr)
    assume "seconds_after s2 \<noteq> 0"
    then obtain s3 x s4 where "s2 = CHR '':'' # s3" "scanInt s3 = Some (x, s4)"
      by (auto simp: seconds_after_def split: list.splits option.splits if_splits)
    with that doScanf_hms [of s "[h, m, x]"] None show False by auto
  qed
  show ?thesis
  proof (cases "doScanf fmt_hm s")
    case N2: None
    have "\<not> (\<exists>s1 s2. scanInt s = Some (hr, CHR '':'' # s1) \<and> scanInt s1 = Some (mi, s2))"
      using N2 doScanf_hm [of s "[hr, mi]"] by auto
    with None N2 show ?thesis by (auto simp: scanHHMM_def)
  next
    case (Some r)
    with doScanf_hm [of s r] obtain h m s1 s2 where
      k: "scanInt s = Some (h, CHR '':'' # s1)" "scanInt s1 = Some (m, s2)" "r = [h, m]"
      by blast
    with None Some n [OF k(1,2)] show ?thesis by (auto simp: scanHHMM_def)
  qed
next
  case (Some r)
  with doScanf_hms [of s r] obtain h m x s1 s3 s4 where
    k: "scanInt s = Some (h, CHR '':'' # s1)" "scanInt s1 = Some (m, CHR '':'' # s3)"
      "scanInt s3 = Some (x, s4)" "r = [h, m, x]"
    by auto
  with Some show ?thesis by (auto simp: scanHHMM_def seconds_after_def)
qed

section \<open>The two paths of \<^verbatim>\<open>parseTime\<close>\<close>

lemma parseTime_scanned:
  assumes "scanHHMM tspec = Some (hr, mi, secs)"
  shows "parseTime now loc tspec =
     Inr (let tgt = Date (Time_Year now loc) (Time_Month now loc) (Time_Day now loc)
                         hr mi secs 0 loc
          in if Time_Hour now loc = hr \<and> Time_Minute now loc = mi \<and> secs \<le> Time_Second now loc
             then tgt
             else if tgt < now then tgt + 24 * Hour else tgt)"
  using assms by (simp add: parseTime_def parseHHMM_def Let_def Before_def Add_def)

lemma parseTime_not_scanned:
  assumes "scanHHMM tspec = None"
  shows "parseTime now loc tspec = parseSpecs now loc tspec specs"
  using assms by (simp add: parseTime_def parseHHMM_def)

lemma parseTime_winner:
  assumes "scanHHMM tspec = None" and "specs = before @ sp # after"
    and "\<forall>x \<in> set before. parse (spec x) tspec = None"
    and "parse (spec sp) tspec = Some f"
  shows "parseTime now loc tspec =
     Inr (Date (if noyear \<le> lacks sp then Time_Year now loc else f_year f)
               (if nomonth \<le> lacks sp then Time_Month now loc else f_month f)
               (f_day f) (f_hour f) (f_min f) (f_sec f) (f_nsec f) loc)"
proof -
  have sp: "sp \<in> set specs" by (subst assms(2)) simp
  have "parseTime now loc tspec = parseSpecs now loc tspec (before @ sp # after)"
    using parseTime_not_scanned [OF assms(1)] assms(2) by simp
  also have "\<dots> = Inr (complete now loc sp (fields_Date f loc))"
    by (rule parseSpecs_first [OF assms(3,4)])
  finally show ?thesis by (simp only: complete_parsed(1) [OF sp assms(4)])
qed

lemma specs_split:
  "n < 9 \<Longrightarrow> specs = take n specs @ specs ! n # drop (Suc n) specs"
  by (rule id_take_nth_drop) (simp add: specs_def)

lemma winner_by_index:
  assumes "n < 9"
    and "map (\<lambda>sp. parse (spec sp) tspec) (take n specs) = replicate n None"
    and "parse (spec (specs ! n)) tspec = Some f"
  shows "specs = take n specs @ specs ! n # drop (Suc n) specs"
    and "\<forall>x \<in> set (take n specs). parse (spec x) tspec = None"
proof -
  show "specs = take n specs @ specs ! n # drop (Suc n) specs" by (rule specs_split [OF assms(1)])
  show "\<forall>x \<in> set (take n specs). parse (spec x) tspec = None"
  proof
    fix x assume "x \<in> set (take n specs)"
    then have "parse (spec x) tspec \<in> set (map (\<lambda>sp. parse (spec sp) tspec) (take n specs))"
      by simp
    then show "parse (spec x) tspec = None" unfolding assms(2) by simp
  qed
qed

lemma scan_examples:
  "scanHHMM ''12-25'' = None" "scanHHMM ''31'' = None" "scanHHMM ''02-29'' = None"
  "scanHHMM ''2024-03-01 09:30:15'' = None" "scanHHMM ''not-a-time'' = None"
  by code_simp+




lemma parse_example_full:
  "map (\<lambda>sp. parse (spec sp) ''2024-03-01 09:30:15'') (take 1 specs) = replicate 1 None"
  "parse (spec (specs ! 1)) ''2024-03-01 09:30:15''
     = Some \<lparr>f_year = 2024, f_month = 3, f_day = 1, f_hour = 9, f_min = 30, f_sec = 15, f_nsec = 0\<rparr>"
  "lacks (specs ! 1) = full" "lacks (specs ! Suc 0) = full"
  "spec (specs ! 0) = ''2006-01-02 15:04''" "spec (specs ! 1) = ''2006-01-02 15:04:05''"
  by code_simp+

lemma parse_example_unparseable:
  "map (\<lambda>sp. parse (spec sp) ''not-a-time'') specs = replicate 9 None"
  by code_simp

lemma lacks_order: "full < noyear" "noyear < nomonth"
  by (simp_all add: full_def noyear_def nomonth_def)




lemma parseTime_full_seconds:
  "parseTime now loc ''2024-03-01 09:30:15'' = Inr (Date 2024 3 1 9 30 15 0 loc)"
  using parseTime_winner [OF scan_examples(4)
      winner_by_index [OF _ parse_example_full(1,2)] parse_example_full(2), of now loc]
    lacks_order
  by (simp add: parse_example_full(3,4))

lemma parseTime_unparseable: "parseTime now loc ''not-a-time'' = Inl CannotParse"
proof -
  have "\<forall>x \<in> set specs. parse (spec x) ''not-a-time'' = None"
  proof
    fix x assume "x \<in> set specs"
    then have "parse (spec x) ''not-a-time'' \<in> set (map (\<lambda>sp. parse (spec sp) ''not-a-time'') specs)"
      by simp
    then show "parse (spec x) ''not-a-time'' = None"
      unfolding parse_example_unparseable by simp
  qed
  then show ?thesis
    using parseTime_not_scanned [OF scan_examples(5), of now loc]
      parseSpecs_error [of now loc "''not-a-time''" specs CannotParse]
    by simp
qed


subsection \<open>What the layouts tolerate\<close>

text \<open>
  The matching of \<^verbatim>\<open>time.Parse\<close>, element by element: text left over at the end of the
  layout is an error; the hour is read with one digit where no second digit follows,
  whereas month, day, minute and second are refused with one; a space of the layout
  matches any run of spaces; and a fractional second is read after the seconds.
\<close>

lemma parse_loop_end: "parse_loop [] v g = (if v = [] then Some g else None)"
  by (simp add: parse_loop.simps [of "[]"])

lemma getnum_one_digit:
  assumes "isDigit c" "r = [] \<or> \<not> isDigit (hd r)"
  shows "getnum (c # r) False = Some (digit_val c, r)" "getnum (c # r) True = None"
  using assms by (cases r; simp add: getnum_def)+

lemma parse_std_one_digit:
  assumes "isDigit c" "r = [] \<or> \<not> isDigit (hd r)"
  shows "parse_std stdHour (c # r) g = Some (g\<lparr>f_hour := digit_val c\<rparr>, r)"
    and "parse_std stdZeroMonth (c # r) g = None" and "parse_std stdZeroDay (c # r) g = None"
    and "parse_std stdZeroMinute (c # r) g = None" and "parse_std stdZeroSecond (c # r) g = None"
  using getnum_one_digit [OF assms] digit_val_bounds [OF assms(1)]
  by (simp_all add: parse_std_def)

lemma skip_spaces:
  assumes "v = [] \<or> hd v \<noteq> CHR '' ''"
  shows "skip (replicate (Suc n) (CHR '' '') @ v) '' '' = Some v"
proof -
  have "cutspace (replicate (Suc n) (CHR '' '') @ v) = v"
    unfolding cutspace_def using assms
    by (cases v) (simp_all add: dropWhile_append3)
  moreover have "cutspace '' '' = []" by (simp add: cutspace_def)
  ultimately show ?thesis by simp
qed

lemma parse_std_fraction:
  assumes d: "isDigit c1" "isDigit c2" "digit_val c1 * 10 + digit_val c2 < 60"
    and p: "commaOrPeriod p" and ds: "ds \<noteq> []" "\<forall>c \<in> set ds. isDigit c"
    and r: "r = [] \<or> \<not> isDigit (hd r)"
  shows "parse_std stdZeroSecond (c1 # c2 # p # ds @ r) g
     = Some (g\<lparr>f_sec := digit_val c1 * 10 + digit_val c2,
              f_nsec := parseNanoseconds (p # ds @ r) (1 + length ds)\<rparr>, r)"
proof -
  have g: "getnum (c1 # c2 # p # ds @ r) True
      = Some (digit_val c1 * 10 + digit_val c2, p # ds @ r)"
    using d by (simp add: getnum_def)
  have s0: "0 \<le> digit_val c1 * 10 + digit_val c2"
    using digit_val_bounds [OF d(1)] digit_val_bounds [OF d(2)] by simp
  have t: "takeWhile isDigit (ds @ r) = ds" "dropWhile isDigit (ds @ r) = r"
    using takeWhile_digits [of ds r] ds(2) r by simp_all
  have l: "2 \<le> length (p # ds @ r)" using ds(1) by (cases ds) simp_all
  have h: "isDigit ((p # ds @ r) ! 1)" using ds by (cases ds) simp_all
  have dr: "drop (1 + length ds) (p # ds @ r) = r" by simp
  show ?thesis
    unfolding parse_std_def std.case g option.case prod.case
    using s0 d(3) p l h t(1) dr by (simp add: Let_def)
qed

lemma scan_lenient:
  "scanHHMM ''2024-03-01 9:30'' = None" "scanHHMM ''2024-03-01   09:30'' = None"
  "scanHHMM ''2024-03-01 09:30:15.5'' = None"
  by code_simp+

lemma parse_lenient:
  "parse (spec (specs ! 0)) ''2024-03-01 9:30''
     = Some \<lparr>f_year = 2024, f_month = 3, f_day = 1, f_hour = 9, f_min = 30, f_sec = 0, f_nsec = 0\<rparr>"
  "parse (spec (specs ! 0)) ''2024-03-01   09:30''
     = Some \<lparr>f_year = 2024, f_month = 3, f_day = 1, f_hour = 9, f_min = 30, f_sec = 0, f_nsec = 0\<rparr>"
  "map (\<lambda>sp. parse (spec sp) ''2024-03-01 09:30:15.5'') (take 1 specs) = replicate 1 None"
  "parse (spec (specs ! 1)) ''2024-03-01 09:30:15.5''
     = Some \<lparr>f_year = 2024, f_month = 3, f_day = 1, f_hour = 9, f_min = 30, f_sec = 15,
             f_nsec = 500000000\<rparr>"
  "map (\<lambda>sp. parse (spec sp) tspec) (take 0 specs) = replicate 0 None"
  "lacks (specs ! 0) = full"
  by code_simp+

lemma parseTime_lenient:
  "parseTime now loc ''2024-03-01 9:30'' = Inr (Date 2024 3 1 9 30 0 0 loc)"
  "parseTime now loc ''2024-03-01   09:30'' = Inr (Date 2024 3 1 9 30 0 0 loc)"
  "parseTime now loc ''2024-03-01 09:30:15.5'' = Inr (Date 2024 3 1 9 30 15 500000000 loc)"
proof -
  show "parseTime now loc ''2024-03-01 9:30'' = Inr (Date 2024 3 1 9 30 0 0 loc)"
    using parseTime_winner [OF scan_lenient(1)
        winner_by_index [OF _ parse_lenient(5) parse_lenient(1)] parse_lenient(1), of now loc]
      lacks_order
    by (simp add: parse_lenient(6))
  show "parseTime now loc ''2024-03-01   09:30'' = Inr (Date 2024 3 1 9 30 0 0 loc)"
    using parseTime_winner [OF scan_lenient(2)
        winner_by_index [OF _ parse_lenient(5) parse_lenient(2)] parse_lenient(2), of now loc]
      lacks_order
    by (simp add: parse_lenient(6))
  show "parseTime now loc ''2024-03-01 09:30:15.5'' = Inr (Date 2024 3 1 9 30 15 500000000 loc)"
    using parseTime_winner [OF scan_lenient(3)
        winner_by_index [OF _ parse_lenient(3,4)] parse_lenient(4), of now loc]
      lacks_order
    by (simp add: parse_example_full(3,4))
qed


subsection \<open>The day of a completed date\<close>


section \<open>Zones of fixed offset among the zones\<close>

text \<open>
  On a zone of fixed offset the functions that take a zone are those that take a
  \<open>Location\<close>.
\<close>

lemma Date_zone_FixedZone:
  "Date_zone year month day hour minute sec nsec (FixedZone loc)
     = Date year month day hour minute sec nsec loc"
  by (simp add: Date_zone_def Date_def FixedZone_def Let_def split: prod.splits)

lemma absSec_zone_FixedZone: "absSec_zone t (FixedZone loc) = absSec t loc"
  by (simp add: absSec_zone_def absSec_def FixedZone_def)

lemma fields_FixedZone:
  "Year_zone t (FixedZone loc) = Time_Year t loc"
  "Month_zone t (FixedZone loc) = Time_Month t loc"
  "Day_zone t (FixedZone loc) = Time_Day t loc"
  "Hour_zone t (FixedZone loc) = Time_Hour t loc"
  "Minute_zone t (FixedZone loc) = Time_Minute t loc"
  "Second_zone t (FixedZone loc) = Time_Second t loc"
  by (simp_all add: Year_zone_def Month_zone_def Day_zone_def Hour_zone_def Minute_zone_def
      Second_zone_def Time_Year_def Time_Month_def Time_Day_def Time_Hour_def Time_Minute_def
      Time_Second_def absSec_zone_FixedZone)

lemma parseHHMM_zone_FixedZone:
  "parseHHMM_zone now (FixedZone loc) tspec = parseHHMM now loc tspec"
  unfolding parseHHMM_zone_def parseHHMM_def fields_FixedZone Date_zone_FixedZone ..

lemma parseHHMM_zone_scanned:
  assumes "scanHHMM tspec = Some (hr, mi, secs)"
  shows "parseHHMM_zone now zone tspec =
     Inr (let tgt = Date_zone (Year_zone now zone) (Month_zone now zone) (Day_zone now zone)
                         hr mi secs 0 zone
          in if Hour_zone now zone = hr \<and> Minute_zone now zone = mi \<and> secs \<le> Second_zone now zone
             then tgt
             else if tgt < now then tgt + 24 * Hour else tgt)"
  using assms by (simp add: parseHHMM_zone_def Let_def Before_def Add_def)

lemma AddDate_zone_FixedZone:
  "AddDate_zone t (FixedZone loc) years months days = AddDate t loc years months days"
  unfolding AddDate_zone_def AddDate_def fields_FixedZone Date_zone_FixedZone ..

lemma ParseInLocation_zone_FixedZone:
  "ParseInLocation_zone layout v (FixedZone loc) = ParseInLocation layout v loc"
  unfolding ParseInLocation_zone_def ParseInLocation_def fields_Date_def Date_zone_FixedZone ..

lemma complete_zone_FixedZone:
  "complete_zone now (FixedZone loc) sp t = complete now loc sp t"
  unfolding complete_zone_def complete_def fields_FixedZone AddDate_zone_FixedZone ..

lemma parseSpecs_zone_FixedZone:
  "parseSpecs_zone now (FixedZone loc) tspec sps = parseSpecs now loc tspec sps"
  by (induction sps)
     (simp_all add: ParseInLocation_zone_FixedZone complete_zone_FixedZone split: option.splits)

lemma parseTime_zone_FixedZone:
  "parseTime_zone now (FixedZone loc) tspec = parseTime now loc tspec"
  unfolding parseTime_zone_def parseTime_def parseHHMM_zone_FixedZone parseSpecs_zone_FixedZone ..

lemma parseTime_zone_scanned:
  assumes "scanHHMM tspec = Some (hr, mi, secs)"
  shows "parseTime_zone now zone tspec =
     Inr (let tgt = Date_zone (Year_zone now zone) (Month_zone now zone) (Day_zone now zone)
                         hr mi secs 0 zone
          in if Hour_zone now zone = hr \<and> Minute_zone now zone = mi \<and> secs \<le> Second_zone now zone
             then tgt
             else if tgt < now then tgt + 24 * Hour else tgt)"
  using assms by (simp add: parseTime_zone_def parseHHMM_zone_def Let_def Before_def Add_def)

section \<open>Properties of \<^verbatim>\<open>parseTime\<close>\<close>

lemma scanHHMM_digits:
  assumes h: "h \<noteq> []" "\<forall>c \<in> set h. isDigit c" "length h \<le> 18"
    and m: "m \<noteq> []" "\<forall>c \<in> set m. isDigit c" "length m \<le> 18"
  shows "scanHHMM (h @ '':'' @ m) = Some (digits_val h, digits_val m, 0)"
    and "x \<noteq> [] \<Longrightarrow> \<forall>c \<in> set x. isDigit c \<Longrightarrow> length x \<le> 18 \<Longrightarrow>
      scanHHMM (h @ '':'' @ m @ '':'' @ x) = Some (digits_val h, digits_val m, digits_val x)"
proof -
  have nd: "\<not> isDigit (CHR '':'')" by (simp add: isDigit_def)
  have 1: "scanInt (h @ CHR '':'' # r) = Some (digits_val h, CHR '':'' # r)" for r
    by (rule scanInt_digits [OF h]) (simp add: nd)
  have 2: "scanInt (m @ []) = Some (digits_val m, [])"
    by (rule scanInt_digits [OF m]) simp
  have 3: "scanInt (m @ CHR '':'' # r) = Some (digits_val m, CHR '':'' # r)" for r
    by (rule scanInt_digits [OF m]) (simp add: nd)
  show "scanHHMM (h @ '':'' @ m) = Some (digits_val h, digits_val m, 0)"
    unfolding scanHHMM_iff using 1 [of m] 2 by (simp add: seconds_after_def)
  show "scanHHMM (h @ '':'' @ m @ '':'' @ x) = Some (digits_val h, digits_val m, digits_val x)"
    if x: "x \<noteq> []" "\<forall>c \<in> set x. isDigit c" "length x \<le> 18"
  proof -
    have 4: "scanInt (x @ []) = Some (digits_val x, [])"
      by (rule scanInt_digits [OF x]) simp
    show ?thesis
      unfolding scanHHMM_iff using 1 [of "m @ '':'' @ x"] 3 [of x] 4
      by (simp add: seconds_after_def)
  qed
qed

text \<open>
  Claim C4, as stated, fails: the fast path does not check the hour and does not ask that
  the text ends after the minute or the seconds. \<^verbatim>\<open>25:00\<close> is handled by the fast path,
  as hour 25 of today, which \<^verbatim>\<open>time.Date\<close> normalises to 01:00 of tomorrow, and
  \<^verbatim>\<open>12:30abc\<close> is handled as 12:30.
\<close>

theorem clock_time_fast_path_counterexample:
  "scanHHMM ''25:00'' = Some (25, 0, 0)
   \<and> parseHHMM (Date 2024 11 15 14 0 0 0 0) 0 ''25:00'' = Inr (Date 2024 11 16 1 0 0 0 0)
   \<and> scanHHMM ''12:30abc'' = Some (12, 30, 0)
   \<and> parseHHMM (Date 2024 11 15 14 0 0 0 0) 0 ''12:30abc'' = Inr (Date 2024 11 16 12 30 0 0 0)"
  by code_simp

text \<open>
  Claim C4, amended. The fast path fails exactly on the texts that \<^verbatim>\<open>Sscanf\<close> scans with
  neither format, and these, and only these, are handed to the calendar-date patterns;
  every other text is settled by the fast path. It scans a text exactly when the text
  begins with an integer as the verb \<^verbatim>\<open>%d\<close> reads it, a colon, and a second such
  integer; what follows the second integer is ignored unless it is a colon and a third
  integer, the seconds. The verb reads white space (as \<open>SkipSpace\<close> skips it), an optional
  sign and a longest run of decimal digits whose value fits 64 bits. No range is checked,
  so every \<^verbatim>\<open>HH:MM\<close> and \<^verbatim>\<open>HH:MM:SS\<close> of decimal digits (here up to 18 of them) is
  handled, whatever the hour.
\<close>

theorem clock_time_fast_path:
  "(parseHHMM now loc tspec = Inl ScanError \<longleftrightarrow> scanHHMM tspec = None)
   \<and> (scanHHMM tspec = None \<longrightarrow> parseTime now loc tspec = parseSpecs now loc tspec specs)
   \<and> (scanHHMM tspec \<noteq> None \<longrightarrow>
        (\<exists>t. parseHHMM now loc tspec = Inr t \<and> parseTime now loc tspec = Inr t))
   \<and> (scanHHMM tspec = Some (hr, mi, secs) \<longleftrightarrow>
        (\<exists>s1 s2. scanInt tspec = Some (hr, CHR '':'' # s1) \<and> scanInt s1 = Some (mi, s2)
           \<and> secs = seconds_after s2))
   \<and> (scanInt tspec = Some (v, rest) \<longleftrightarrow>
        (\<exists>sg ds. SkipSpace tspec = Some (sg @ ds @ rest) \<and> sg \<in> {[], ''+'', ''-''}
           \<and> ds \<noteq> [] \<and> (\<forall>c \<in> set ds. isDigit c) \<and> (rest = [] \<or> \<not> isDigit (hd rest))
           \<and> v = (if sg = ''-'' then - digits_val ds else digits_val ds)
           \<and> - (2 ^ 63) \<le> v \<and> v \<le> 2 ^ 63 - 1))
   \<and> (h \<noteq> [] \<and> m \<noteq> [] \<and> (\<forall>c \<in> set (h @ m). isDigit c) \<and> length h \<le> 18 \<and> length m \<le> 18
        \<longrightarrow> scanHHMM (h @ '':'' @ m) = Some (digits_val h, digits_val m, 0)
          \<and> (x \<noteq> [] \<and> (\<forall>c \<in> set x. isDigit c) \<and> length x \<le> 18
              \<longrightarrow> scanHHMM (h @ '':'' @ m @ '':'' @ x)
                  = Some (digits_val h, digits_val m, digits_val x)))"
proof (intro conjI impI)
  show "parseHHMM now loc tspec = Inl ScanError \<longleftrightarrow> scanHHMM tspec = None"
    by (auto simp: parseHHMM_def Let_def split: option.splits)
  show "parseTime now loc tspec = parseSpecs now loc tspec specs" if "scanHHMM tspec = None"
    by (rule parseTime_not_scanned [OF that])
  show "\<exists>t. parseHHMM now loc tspec = Inr t \<and> parseTime now loc tspec = Inr t"
    if "scanHHMM tspec \<noteq> None"
    using that by (auto simp: parseTime_def parseHHMM_def Let_def split: option.splits)
  show "scanHHMM tspec = Some (hr, mi, secs) \<longleftrightarrow>
        (\<exists>s1 s2. scanInt tspec = Some (hr, CHR '':'' # s1) \<and> scanInt s1 = Some (mi, s2)
           \<and> secs = seconds_after s2)"
    by (rule scanHHMM_iff)
  show "scanInt tspec = Some (v, rest) \<longleftrightarrow>
        (\<exists>sg ds. SkipSpace tspec = Some (sg @ ds @ rest) \<and> sg \<in> {[], ''+'', ''-''}
           \<and> ds \<noteq> [] \<and> (\<forall>c \<in> set ds. isDigit c) \<and> (rest = [] \<or> \<not> isDigit (hd rest))
           \<and> v = (if sg = ''-'' then - digits_val ds else digits_val ds)
           \<and> - (2 ^ 63) \<le> v \<and> v \<le> 2 ^ 63 - 1)"
    by (rule scanInt_iff)
next
  assume a: "h \<noteq> [] \<and> m \<noteq> [] \<and> (\<forall>c \<in> set (h @ m). isDigit c) \<and> length h \<le> 18 \<and> length m \<le> 18"
  then have h: "h \<noteq> []" "\<forall>c \<in> set h. isDigit c" "length h \<le> 18"
    and m: "m \<noteq> []" "\<forall>c \<in> set m. isDigit c" "length m \<le> 18" by auto
  show "scanHHMM (h @ '':'' @ m) = Some (digits_val h, digits_val m, 0)"
    by (rule scanHHMM_digits(1) [OF h m])
  show "scanHHMM (h @ '':'' @ m @ '':'' @ x) = Some (digits_val h, digits_val m, digits_val x)"
    if "x \<noteq> [] \<and> (\<forall>c \<in> set x. isDigit c) \<and> length x \<le> 18"
    using that scanHHMM_digits(2) [OF h m, of x] by blast
qed

theorem clock_time_fast_path_witness:
  "scanHHMM ''12-25'' = None
   \<and> parseTime (Date 2024 11 15 14 0 0 0 0) 0 ''12-25''
       = parseSpecs (Date 2024 11 15 14 0 0 0 0) 0 ''12-25'' specs
   \<and> scanHHMM ''25:00'' \<noteq> None
   \<and> (\<exists>t. parseHHMM (Date 2024 11 15 14 0 0 0 0) 0 ''25:00'' = Inr t
          \<and> parseTime (Date 2024 11 15 14 0 0 0 0) 0 ''25:00'' = Inr t)
   \<and> scanHHMM (''09'' @ '':'' @ ''05'') = Some (9, 5, 0)
   \<and> scanHHMM (''09'' @ '':'' @ ''05'' @ '':'' @ ''59'') = Some (9, 5, 59)"
proof -
  let ?now = "Date 2024 11 15 14 0 0 0 0"
  have s: "scanHHMM ''12-25'' = None" "scanHHMM ''25:00'' \<noteq> None" by code_simp+
  have d: "''09'' \<noteq> [] \<and> ''05'' \<noteq> [] \<and> (\<forall>c \<in> set (''09'' @ ''05''). isDigit c)
      \<and> length ''09'' \<le> 18 \<and> length ''05'' \<le> 18"
    "''59'' \<noteq> [] \<and> (\<forall>c \<in> set ''59''. isDigit c) \<and> length ''59'' \<le> 18"
    by (simp_all add: isDigit_def)
  have v: "digits_val ''09'' = 9" "digits_val ''05'' = 5" "digits_val ''59'' = 59"
    by code_simp+
  note t1 = clock_time_fast_path [where tspec = "''12-25''" and now = ?now and loc = 0,
      THEN conjunct2, THEN conjunct1, rule_format]
  note t2 = clock_time_fast_path [where tspec = "''25:00''" and now = ?now and loc = 0,
      THEN conjunct2, THEN conjunct2, THEN conjunct1, rule_format]
  note t3 = clock_time_fast_path [where h = "''09''" and m = "''05''" and x = "''59''",
      THEN conjunct2, THEN conjunct2, THEN conjunct2, THEN conjunct2, THEN conjunct2,
      THEN mp, OF d(1)]
  have 1: "parseTime ?now 0 ''12-25'' = parseSpecs ?now 0 ''12-25'' specs"
    by (rule t1 [OF s(1)])
  have 2: "\<exists>t. parseHHMM ?now 0 ''25:00'' = Inr t \<and> parseTime ?now 0 ''25:00'' = Inr t"
    by (rule t2 [OF s(2)])
  have 3: "scanHHMM (''09'' @ '':'' @ ''05'') = Some (9, 5, 0)"
    "scanHHMM (''09'' @ '':'' @ ''05'' @ '':'' @ ''59'') = Some (9, 5, 59)"
    using t3 [THEN conjunct1] t3 [THEN conjunct2, THEN mp, OF d(2)] unfolding v by simp_all
  show ?thesis by (intro conjI s 1 2 3)
qed

text \<open>
  Claim C5. For a clock-time input (one the fast path scans) whose hour and minute are
  those of the current instant and whose seconds, 0 when omitted, are at most the current
  seconds, parsing returns today's date with the given time of day, unchanged: no 24 hours
  are added. The witness is the case of the source's comment, \<^verbatim>\<open>17:01\<close> typed at
  17:01:33, where the result lies before now.
\<close>

theorem parseTime_same_minute:
  assumes "scanHHMM tspec = Some (hr, mi, secs)"
    and "Time_Hour now loc = hr" and "Time_Minute now loc = mi"
    and "secs \<le> Time_Second now loc"
  shows "parseTime now loc tspec
    = Inr (Date (Time_Year now loc) (Time_Month now loc) (Time_Day now loc) hr mi secs 0 loc)"
  using parseTime_scanned [OF assms(1), of now loc] assms(2-4) by (simp add: Let_def)

theorem parseTime_same_minute_witness:
  "scanHHMM ''17:01'' = Some (17, 1, 0)
   \<and> Time_Hour (Date 2024 11 15 17 1 33 0 0) 0 = 17
   \<and> Time_Minute (Date 2024 11 15 17 1 33 0 0) 0 = 1
   \<and> 0 \<le> Time_Second (Date 2024 11 15 17 1 33 0 0) 0
   \<and> parseTime (Date 2024 11 15 17 1 33 0 0) 0 ''17:01'' = Inr (Date 2024 11 15 17 1 0 0 0)
   \<and> Before (Date 2024 11 15 17 1 0 0 0) (Date 2024 11 15 17 1 33 0 0)"
proof -
  let ?now = "Date 2024 11 15 17 1 33 0 0"
  have s: "scanHHMM ''17:01'' = Some (17, 1, 0)" by code_simp
  have f: "Time_Year ?now 0 = 2024" "Time_Month ?now 0 = 11" "Time_Day ?now 0 = 15"
    "Time_Hour ?now 0 = 17" "Time_Minute ?now 0 = 1" "Time_Second ?now 0 = 33"
    by code_simp+
  have b: "Before (Date 2024 11 15 17 1 0 0 0) ?now" by code_simp
  have "0 \<le> Time_Second ?now 0" using f by simp
  from parseTime_same_minute [OF s f(4,5) this]
  have "parseTime ?now 0 ''17:01'' = Inr (Date 2024 11 15 17 1 0 0 0)"
    by (simp only: f)
  with s f b show ?thesis by simp
qed

text \<open>
  Claim C6. For a clock-time input outside the same-minute case, parsing returns the
  candidate (today's date with the given time of day) plus exactly 24 hours, a fixed
  duration of \<open>24 * 3600\<close> seconds added to the instant, when the candidate is strictly
  before now, and the candidate itself otherwise. This holds in every zone, with or without
  transitions (\<open>parseTime_zone\<close>), and so for \<open>parseTime\<close>, which is \<open>parseTime_zone\<close> on a
  zone of fixed offset. Hour, minute and second are taken to fit 32 bits, where the 64-bit
  arithmetic of \<^verbatim>\<open>time.Date\<close> is exact. The sum is not a step of the calendar: in a zone
  of fixed offset it is the same time of day on the next day, but across a transition it
  is not. The witness is New York on 2024-11-02 at 14:00, the day before the clocks go
  back: \<^verbatim>\<open>08:00\<close> gives the instant 24 hours after 08:00 of November 2, which is 07:00
  of November 3, whereas 08:00 of November 3 is 25 hours after it.
\<close>

theorem parseTime_roll_forward:
  "(scanHHMM tspec = Some (hr, mi, secs)
      \<and> \<bar>hr\<bar> < 2 ^ 31 \<and> \<bar>mi\<bar> < 2 ^ 31 \<and> \<bar>secs\<bar> < 2 ^ 31
      \<and> \<not> (Hour_zone now zone = hr \<and> Minute_zone now zone = mi \<and> secs \<le> Second_zone now zone)
    \<longrightarrow> parseTime_zone now zone tspec
        = Inr (let tgt = Date_zone (Year_zone now zone) (Month_zone now zone)
                           (Day_zone now zone) hr mi secs 0 zone
               in if tgt < now then tgt + 24 * 3600 * Second else tgt))
   \<and> (scanHHMM tspec = Some (hr, mi, secs)
      \<and> \<bar>hr\<bar> < 2 ^ 31 \<and> \<bar>mi\<bar> < 2 ^ 31 \<and> \<bar>secs\<bar> < 2 ^ 31
      \<and> \<not> (Time_Hour now loc = hr \<and> Time_Minute now loc = mi \<and> secs \<le> Time_Second now loc)
    \<longrightarrow> parseTime now loc tspec
        = Inr (let tgt = Date (Time_Year now loc) (Time_Month now loc) (Time_Day now loc)
                           hr mi secs 0 loc
               in if tgt < now then tgt + 24 * 3600 * Second else tgt))
   \<and> parseTime_zone now (FixedZone loc) tspec = parseTime now loc tspec
   \<and> Date_zone y m d h mi' s ns (FixedZone loc) + 24 * 3600 * Second
       = Date_zone y m (d + 1) h mi' s ns (FixedZone loc)"
proof (intro conjI impI)
  assume a: "scanHHMM tspec = Some (hr, mi, secs)
      \<and> \<bar>hr\<bar> < 2 ^ 31 \<and> \<bar>mi\<bar> < 2 ^ 31 \<and> \<bar>secs\<bar> < 2 ^ 31
      \<and> \<not> (Hour_zone now zone = hr \<and> Minute_zone now zone = mi \<and> secs \<le> Second_zone now zone)"
  then have s: "scanHHMM tspec = Some (hr, mi, secs)"
    and n: "\<not> (Hour_zone now zone = hr \<and> Minute_zone now zone = mi \<and> secs \<le> Second_zone now zone)"
    by simp_all
  show "parseTime_zone now zone tspec
        = Inr (let tgt = Date_zone (Year_zone now zone) (Month_zone now zone)
                           (Day_zone now zone) hr mi secs 0 zone
               in if tgt < now then tgt + 24 * 3600 * Second else tgt)"
    using parseTime_zone_scanned [OF s, of now zone] n
    by (simp add: Let_def Hour_def Minute_def)
next
  assume a: "scanHHMM tspec = Some (hr, mi, secs)
      \<and> \<bar>hr\<bar> < 2 ^ 31 \<and> \<bar>mi\<bar> < 2 ^ 31 \<and> \<bar>secs\<bar> < 2 ^ 31
      \<and> \<not> (Time_Hour now loc = hr \<and> Time_Minute now loc = mi \<and> secs \<le> Time_Second now loc)"
  then have s: "scanHHMM tspec = Some (hr, mi, secs)"
    and n: "\<not> (Time_Hour now loc = hr \<and> Time_Minute now loc = mi \<and> secs \<le> Time_Second now loc)"
    by simp_all
  show "parseTime now loc tspec
            = Inr (let tgt = Date (Time_Year now loc) (Time_Month now loc) (Time_Day now loc)
                               hr mi secs 0 loc
                   in if tgt < now then tgt + 24 * 3600 * Second else tgt)"
    using parseTime_scanned [OF s, of now loc] n
    by (simp add: Let_def Hour_def Minute_def)
next
  show "parseTime_zone now (FixedZone loc) tspec = parseTime now loc tspec"
    by (rule parseTime_zone_FixedZone)
  show "Date_zone y m d h mi' s ns (FixedZone loc) + 24 * 3600 * Second
       = Date_zone y m (d + 1) h mi' s ns (FixedZone loc)"
    unfolding Date_zone_FixedZone by (rule Date_next_day)
qed

theorem parseTime_roll_forward_witness:
  "scanHHMM ''08:00'' = Some (8, 0, 0)
   \<and> Hour_zone (Date_zone 2024 11 2 14 0 0 0 New_York_2024) New_York_2024 = 14
   \<and> parseTime_zone (Date_zone 2024 11 2 14 0 0 0 New_York_2024) New_York_2024 ''08:00''
       = Inr (Date_zone 2024 11 2 8 0 0 0 New_York_2024 + 24 * 3600 * Second)
   \<and> Date_zone 2024 11 3 8 0 0 0 New_York_2024
       = Date_zone 2024 11 2 8 0 0 0 New_York_2024 + 25 * 3600 * Second
   \<and> Day_zone (Date_zone 2024 11 2 8 0 0 0 New_York_2024 + 24 * 3600 * Second) New_York_2024 = 3
   \<and> Hour_zone (Date_zone 2024 11 2 8 0 0 0 New_York_2024 + 24 * 3600 * Second) New_York_2024 = 7
   \<and> scanHHMM ''15:30'' = Some (15, 30, 0)
   \<and> parseTime_zone (Date_zone 2024 11 2 14 0 0 0 New_York_2024) New_York_2024 ''15:30''
       = Inr (Date_zone 2024 11 2 15 30 0 0 New_York_2024)
   \<and> Time_Hour (Date 2024 11 15 14 0 0 0 0) 0 = 14
   \<and> parseTime (Date 2024 11 15 14 0 0 0 0) 0 ''08:00''
       = Inr (Date 2024 11 15 8 0 0 0 0 + 24 * 3600 * Second)
   \<and> Date 2024 11 15 8 0 0 0 0 + 24 * 3600 * Second = Date 2024 11 16 8 0 0 0 0
   \<and> parseTime (Date 2024 11 15 14 0 0 0 0) 0 ''15:30'' = Inr (Date 2024 11 15 15 30 0 0 0)"
proof -
  let ?ny = "Date_zone 2024 11 2 14 0 0 0 New_York_2024"
  let ?now = "Date 2024 11 15 14 0 0 0 0"
  have s: "scanHHMM ''08:00'' = Some (8, 0, 0)" "scanHHMM ''15:30'' = Some (15, 30, 0)"
    by code_simp+
  have r: "\<bar>8::int\<bar> < 2 ^ 31" "\<bar>0::int\<bar> < 2 ^ 31" "\<bar>15::int\<bar> < 2 ^ 31" "\<bar>30::int\<bar> < 2 ^ 31"
    by simp_all
  have z: "Year_zone ?ny New_York_2024 = 2024" "Month_zone ?ny New_York_2024 = 11"
    "Day_zone ?ny New_York_2024 = 2" "Hour_zone ?ny New_York_2024 = 14"
    "Minute_zone ?ny New_York_2024 = 0" "Second_zone ?ny New_York_2024 = 0"
    by code_simp+
  have zc: "Date_zone 2024 11 2 8 0 0 0 New_York_2024 < ?ny"
    "\<not> Date_zone 2024 11 2 15 30 0 0 New_York_2024 < ?ny"
    "Date_zone 2024 11 3 8 0 0 0 New_York_2024
       = Date_zone 2024 11 2 8 0 0 0 New_York_2024 + 25 * 3600 * Second"
    "Day_zone (Date_zone 2024 11 2 8 0 0 0 New_York_2024 + 24 * 3600 * Second) New_York_2024 = 3"
    "Hour_zone (Date_zone 2024 11 2 8 0 0 0 New_York_2024 + 24 * 3600 * Second) New_York_2024 = 7"
    by code_simp+
  have f: "Time_Year ?now 0 = 2024" "Time_Month ?now 0 = 11" "Time_Day ?now 0 = 15"
    "Time_Hour ?now 0 = 14" "Time_Minute ?now 0 = 0" "Time_Second ?now 0 = 0"
    by code_simp+
  have c: "Date 2024 11 15 8 0 0 0 0 < ?now" "\<not> Date 2024 11 15 15 30 0 0 0 < ?now"
    by code_simp+
  have a1: "scanHHMM ''08:00'' = Some (8, 0, 0)
      \<and> \<bar>8::int\<bar> < 2 ^ 31 \<and> \<bar>0::int\<bar> < 2 ^ 31 \<and> \<bar>0::int\<bar> < 2 ^ 31
      \<and> \<not> (Hour_zone ?ny New_York_2024 = 8 \<and> Minute_zone ?ny New_York_2024 = 0
           \<and> 0 \<le> Second_zone ?ny New_York_2024)"
    using s r by (simp add: z)
  have a2: "scanHHMM ''15:30'' = Some (15, 30, 0)
      \<and> \<bar>15::int\<bar> < 2 ^ 31 \<and> \<bar>30::int\<bar> < 2 ^ 31 \<and> \<bar>0::int\<bar> < 2 ^ 31
      \<and> \<not> (Hour_zone ?ny New_York_2024 = 15 \<and> Minute_zone ?ny New_York_2024 = 30
           \<and> 0 \<le> Second_zone ?ny New_York_2024)"
    using s r by (simp add: z)
  have a3: "scanHHMM ''08:00'' = Some (8, 0, 0)
      \<and> \<bar>8::int\<bar> < 2 ^ 31 \<and> \<bar>0::int\<bar> < 2 ^ 31 \<and> \<bar>0::int\<bar> < 2 ^ 31
      \<and> \<not> (Time_Hour ?now 0 = 8 \<and> Time_Minute ?now 0 = 0 \<and> 0 \<le> Time_Second ?now 0)"
    using s r by (simp add: f)
  have a4: "scanHHMM ''15:30'' = Some (15, 30, 0)
      \<and> \<bar>15::int\<bar> < 2 ^ 31 \<and> \<bar>30::int\<bar> < 2 ^ 31 \<and> \<bar>0::int\<bar> < 2 ^ 31
      \<and> \<not> (Time_Hour ?now 0 = 15 \<and> Time_Minute ?now 0 = 30 \<and> 0 \<le> Time_Second ?now 0)"
    using s r by (simp add: f)
  have 1: "parseTime_zone ?ny New_York_2024 ''08:00''
       = Inr (Date_zone 2024 11 2 8 0 0 0 New_York_2024 + 24 * 3600 * Second)"
    using parseTime_roll_forward [where tspec = "''08:00''" and hr = 8 and mi = 0 and secs = 0
        and now = ?ny and zone = New_York_2024, THEN conjunct1, THEN mp, OF a1]
    unfolding z Let_def using zc(1) by simp
  have 2: "parseTime_zone ?ny New_York_2024 ''15:30''
       = Inr (Date_zone 2024 11 2 15 30 0 0 New_York_2024)"
    using parseTime_roll_forward [where tspec = "''15:30''" and hr = 15 and mi = 30 and secs = 0
        and now = ?ny and zone = New_York_2024, THEN conjunct1, THEN mp, OF a2]
    unfolding z Let_def using zc(2) by simp
  have 3: "parseTime ?now 0 ''08:00'' = Inr (Date 2024 11 15 8 0 0 0 0 + 24 * 3600 * Second)"
    using parseTime_roll_forward [where tspec = "''08:00''" and hr = 8 and mi = 0 and secs = 0
        and now = ?now and loc = 0, THEN conjunct2, THEN conjunct1, THEN mp, OF a3]
    unfolding f Let_def using c(1) by simp
  have 4: "parseTime ?now 0 ''15:30'' = Inr (Date 2024 11 15 15 30 0 0 0)"
    using parseTime_roll_forward [where tspec = "''15:30''" and hr = 15 and mi = 30 and secs = 0
        and now = ?now and loc = 0, THEN conjunct2, THEN conjunct1, THEN mp, OF a4]
    unfolding f Let_def using c(2) by simp
  have 5: "Date 2024 11 15 8 0 0 0 0 + 24 * 3600 * Second = Date 2024 11 16 8 0 0 0 0"
    using parseTime_roll_forward [where y = 2024 and m = 11 and d = 15 and h = 8 and mi' = 0
        and s = 0 and ns = 0 and loc = 0, THEN conjunct2, THEN conjunct2, THEN conjunct2]
    by (simp add: Date_zone_FixedZone)
  show ?thesis
    by (intro conjI s z(4) 1 zc(3,4,5) 2 f(4) 3 5 4)
qed



text \<open>
  Claim C8, as stated, fails: the matching is not strict about field widths and
  separators. The pattern \<^verbatim>\<open>2006-01-02 15:04\<close> parses \<^verbatim>\<open>2024-03-01 9:30\<close>, whose hour has
  one digit, and \<^verbatim>\<open>2024-03-01   09:30\<close>, which has three spaces where the layout has one,
  and the pattern \<^verbatim>\<open>2006-01-02 15:04:05\<close> parses \<^verbatim>\<open>2024-03-01 09:30:15.5\<close>, whose
  fractional second no layout has; \<open>parseTime\<close> returns these times.
\<close>

theorem parseTime_strict_matching_counterexample:
  "ParseInLocation ''2006-01-02 15:04'' ''2024-03-01 9:30'' 0 = Some (Date 2024 3 1 9 30 0 0 0)
   \<and> ParseInLocation ''2006-01-02 15:04'' ''2024-03-01   09:30'' 0
       = Some (Date 2024 3 1 9 30 0 0 0)
   \<and> ParseInLocation ''2006-01-02 15:04:05'' ''2024-03-01 09:30:15.5'' 0
       = Some (Date 2024 3 1 9 30 15 500000000 0)
   \<and> parseTime (Date 2024 11 15 14 0 0 0 0) 0 ''2024-03-01 9:30''
       = Inr (Date 2024 3 1 9 30 0 0 0)
   \<and> parseTime (Date 2024 11 15 14 0 0 0 0) 0 ''2024-03-01   09:30''
       = Inr (Date 2024 3 1 9 30 0 0 0)
   \<and> parseTime (Date 2024 11 15 14 0 0 0 0) 0 ''2024-03-01 09:30:15.5''
       = Inr (Date 2024 3 1 9 30 15 500000000 0)"
  by code_simp


text \<open>
  Claim C8, amended. The patterns are tried in the listed order and the first one that
  parses the text wins: whatever the later patterns would do, the result is the completion
  of the time this first pattern gives. \<^verbatim>\<open>2024-03-01 09:30:15\<close> is refused by the pattern
  without seconds, which comes first, and is parsed by the one with seconds, so that the
  result keeps its 15 seconds. The matching is that of \<^verbatim>\<open>time.ParseInLocation\<close>: text
  left over at the end of the layout is an error, and month, day, minute and second must
  have two digits (one digit is refused); but the hour may have one digit, a space of the
  layout matches any run of spaces, and a fractional second, a period or a comma and
  digits, is accepted after the seconds though no layout has one.
\<close>

theorem parseTime_first_pattern_wins:
  "(scanHHMM tspec = None \<and> specs = before @ sp # after
      \<and> (\<forall>x \<in> set before. ParseInLocation (spec x) tspec loc = None)
      \<and> ParseInLocation (spec sp) tspec loc = Some t
    \<longrightarrow> parseTime now loc tspec = Inr (complete now loc sp t))
   \<and> map spec specs = [''2006-01-02 15:04'', ''2006-01-02 15:04:05'', ''2006-01-02'',
        ''01-02 15:04'', ''01-02 15:04:05'', ''01-02'', ''02 15:04'', ''02 15:04:05'', ''02'']
   \<and> ParseInLocation ''2006-01-02 15:04'' ''2024-03-01 09:30:15'' loc = None
   \<and> ParseInLocation ''2006-01-02 15:04:05'' ''2024-03-01 09:30:15'' loc
       = Some (Date 2024 3 1 9 30 15 0 loc)
   \<and> parseTime now loc ''2024-03-01 09:30:15'' = Inr (Date 2024 3 1 9 30 15 0 loc)
   \<and> Time_Second (Date 2024 3 1 9 30 15 0 loc) loc = 15
   \<and> parse_loop [] v g = (if v = [] then Some g else None)
   \<and> (isDigit c \<and> (r = [] \<or> \<not> isDigit (hd r)) \<longrightarrow>
        parse_std stdHour (c # r) g = Some (g\<lparr>f_hour := digit_val c\<rparr>, r)
        \<and> parse_std stdZeroMonth (c # r) g = None \<and> parse_std stdZeroDay (c # r) g = None
        \<and> parse_std stdZeroMinute (c # r) g = None \<and> parse_std stdZeroSecond (c # r) g = None)
   \<and> (v = [] \<or> hd v \<noteq> CHR '' '' \<longrightarrow>
        skip (replicate (Suc n) (CHR '' '') @ v) '' '' = Some v)
   \<and> (isDigit c1 \<and> isDigit c2 \<and> digit_val c1 * 10 + digit_val c2 < 60 \<and> commaOrPeriod p
        \<and> ds \<noteq> [] \<and> (\<forall>c \<in> set ds. isDigit c) \<and> (r = [] \<or> \<not> isDigit (hd r)) \<longrightarrow>
        parse_std stdZeroSecond (c1 # c2 # p # ds @ r) g
          = Some (g\<lparr>f_sec := digit_val c1 * 10 + digit_val c2,
                   f_nsec := parseNanoseconds (p # ds @ r) (1 + length ds)\<rparr>, r))
   \<and> parseTime now loc ''2024-03-01 9:30'' = Inr (Date 2024 3 1 9 30 0 0 loc)
   \<and> parseTime now loc ''2024-03-01   09:30'' = Inr (Date 2024 3 1 9 30 0 0 loc)
   \<and> parseTime now loc ''2024-03-01 09:30:15.5'' = Inr (Date 2024 3 1 9 30 15 500000000 loc)"
proof (intro conjI impI)
  assume a: "scanHHMM tspec = None \<and> specs = before @ sp # after
      \<and> (\<forall>x \<in> set before. ParseInLocation (spec x) tspec loc = None)
      \<and> ParseInLocation (spec sp) tspec loc = Some t"
  then obtain f where f: "parse (spec sp) tspec = Some f" "t = fields_Date f loc"
    by (auto simp: ParseInLocation_eq)
  from a have n: "\<forall>x \<in> set before. parse (spec x) tspec = None"
    by (simp add: ParseInLocation_eq)
  have "parseTime now loc tspec = parseSpecs now loc tspec (before @ sp # after)"
    using a parseTime_not_scanned [of tspec now loc] by simp
  also have "\<dots> = Inr (complete now loc sp (fields_Date f loc))"
    by (rule parseSpecs_first [OF n f(1)])
  finally show "parseTime now loc tspec = Inr (complete now loc sp t)" using f(2) by simp
next
  show "map spec specs = [''2006-01-02 15:04'', ''2006-01-02 15:04:05'', ''2006-01-02'',
        ''01-02 15:04'', ''01-02 15:04:05'', ''01-02'', ''02 15:04'', ''02 15:04:05'', ''02'']"
    by (simp add: specs_def)
  have "parse ''2006-01-02 15:04'' ''2024-03-01 09:30:15'' = None"
    using parse_example_full(1,5) by (simp add: specs_def)
  then show "ParseInLocation ''2006-01-02 15:04'' ''2024-03-01 09:30:15'' loc = None"
    by (simp add: ParseInLocation_eq)
  show "ParseInLocation ''2006-01-02 15:04:05'' ''2024-03-01 09:30:15'' loc
       = Some (Date 2024 3 1 9 30 15 0 loc)"
    using parse_example_full(2,6) by (simp add: ParseInLocation_eq fields_Date_def)
  show "parseTime now loc ''2024-03-01 09:30:15'' = Inr (Date 2024 3 1 9 30 15 0 loc)"
    by (rule parseTime_full_seconds)
  show "Time_Second (Date 2024 3 1 9 30 15 0 loc) loc = 15"
    by (rule Date_fields(6)) (simp_all add: daysIn_def daysBefore_def)
  show "parse_loop [] v g = (if v = [] then Some g else None)"
    by (rule parse_loop_end)
  show "parseTime now loc ''2024-03-01 9:30'' = Inr (Date 2024 3 1 9 30 0 0 loc)"
    "parseTime now loc ''2024-03-01   09:30'' = Inr (Date 2024 3 1 9 30 0 0 loc)"
    "parseTime now loc ''2024-03-01 09:30:15.5'' = Inr (Date 2024 3 1 9 30 15 500000000 loc)"
    by (rule parseTime_lenient)+
next
  assume "isDigit c \<and> (r = [] \<or> \<not> isDigit (hd r))"
  then have c: "isDigit c" "r = [] \<or> \<not> isDigit (hd r)" by simp_all
  show "parse_std stdHour (c # r) g = Some (g\<lparr>f_hour := digit_val c\<rparr>, r)"
    "parse_std stdZeroMonth (c # r) g = None" "parse_std stdZeroDay (c # r) g = None"
    "parse_std stdZeroMinute (c # r) g = None" "parse_std stdZeroSecond (c # r) g = None"
    by (rule parse_std_one_digit [OF c])+
next
  assume "v = [] \<or> hd v \<noteq> CHR '' ''"
  then show "skip (replicate (Suc n) (CHR '' '') @ v) '' '' = Some v"
    by (rule skip_spaces)
next
  assume "isDigit c1 \<and> isDigit c2 \<and> digit_val c1 * 10 + digit_val c2 < 60 \<and> commaOrPeriod p
        \<and> ds \<noteq> [] \<and> (\<forall>c \<in> set ds. isDigit c) \<and> (r = [] \<or> \<not> isDigit (hd r))"
  then have h: "isDigit c1" "isDigit c2" "digit_val c1 * 10 + digit_val c2 < 60"
    "commaOrPeriod p" "ds \<noteq> []" "\<forall>c \<in> set ds. isDigit c" "r = [] \<or> \<not> isDigit (hd r)"
    by simp_all
  show "parse_std stdZeroSecond (c1 # c2 # p # ds @ r) g
          = Some (g\<lparr>f_sec := digit_val c1 * 10 + digit_val c2,
                   f_nsec := parseNanoseconds (p # ds @ r) (1 + length ds)\<rparr>, r)"
    by (rule parse_std_fraction [OF h])
qed


theorem parseTime_first_pattern_wins_witness:
  "scanHHMM ''2024-03-01 09:30:15'' = None
   \<and> specs = [specs ! 0] @ specs ! 1 # drop 2 specs
   \<and> ParseInLocation (spec (specs ! 0)) ''2024-03-01 09:30:15'' 0 = None
   \<and> ParseInLocation (spec (specs ! 1)) ''2024-03-01 09:30:15'' 0
        = Some (Date 2024 3 1 9 30 15 0 0)
   \<and> parseTime (Date 2024 11 15 14 0 0 0 0) 0 ''2024-03-01 09:30:15''
        = Inr (complete (Date 2024 11 15 14 0 0 0 0) 0 (specs ! 1) (Date 2024 3 1 9 30 15 0 0))
   \<and> complete (Date 2024 11 15 14 0 0 0 0) 0 (specs ! 1) (Date 2024 3 1 9 30 15 0 0)
        = Date 2024 3 1 9 30 15 0 0
   \<and> parse_std stdHour ''9:30''
        \<lparr>f_year = 2024, f_month = 3, f_day = 1, f_hour = 0, f_min = 0, f_sec = 0, f_nsec = 0\<rparr>
      = Some (\<lparr>f_year = 2024, f_month = 3, f_day = 1, f_hour = 9, f_min = 0, f_sec = 0,
               f_nsec = 0\<rparr>, '':30'')
   \<and> parse_std stdZeroMinute ''9:30''
        \<lparr>f_year = 2024, f_month = 3, f_day = 1, f_hour = 0, f_min = 0, f_sec = 0, f_nsec = 0\<rparr>
      = None
   \<and> skip ''   09:30'' '' '' = Some ''09:30''
   \<and> parse_std stdZeroSecond ''15.5''
        \<lparr>f_year = 2024, f_month = 3, f_day = 1, f_hour = 9, f_min = 30, f_sec = 0, f_nsec = 0\<rparr>
      = Some (\<lparr>f_year = 2024, f_month = 3, f_day = 1, f_hour = 9, f_min = 30, f_sec = 15,
               f_nsec = 500000000\<rparr>, [])"
proof -
  let ?now = "Date 2024 11 15 14 0 0 0 0"
  let ?g = "\<lparr>f_year = 2024, f_month = 3, f_day = 1, f_hour = 0, f_min = 0, f_sec = 0,
             f_nsec = 0\<rparr>"
  let ?g' = "\<lparr>f_year = 2024, f_month = 3, f_day = 1, f_hour = 9, f_min = 30, f_sec = 0,
              f_nsec = 0\<rparr>"
  have s: "scanHHMM ''2024-03-01 09:30:15'' = None" by code_simp
  have d: "specs = [specs ! 0] @ specs ! 1 # drop 2 specs" by (simp add: specs_def)
  have p: "ParseInLocation (spec (specs ! 0)) ''2024-03-01 09:30:15'' 0 = None"
    "ParseInLocation (spec (specs ! 1)) ''2024-03-01 09:30:15'' 0
        = Some (Date 2024 3 1 9 30 15 0 0)"
    "complete ?now 0 (specs ! 1) (Date 2024 3 1 9 30 15 0 0) = Date 2024 3 1 9 30 15 0 0"
    by code_simp+
  have b: "\<forall>x \<in> set [specs ! 0]. ParseInLocation (spec x) ''2024-03-01 09:30:15'' 0 = None"
    using p(1) by simp
  have a: "scanHHMM ''2024-03-01 09:30:15'' = None
      \<and> specs = [specs ! 0] @ specs ! 1 # drop 2 specs
      \<and> (\<forall>x \<in> set [specs ! 0]. ParseInLocation (spec x) ''2024-03-01 09:30:15'' 0 = None)
      \<and> ParseInLocation (spec (specs ! 1)) ''2024-03-01 09:30:15'' 0
          = Some (Date 2024 3 1 9 30 15 0 0)"
    using s d b p(2) by (simp only: simp_thms)
  have 1: "parseTime ?now 0 ''2024-03-01 09:30:15''
        = Inr (complete ?now 0 (specs ! 1) (Date 2024 3 1 9 30 15 0 0))"
    by (rule parseTime_first_pattern_wins [where loc = 0 and now = ?now, THEN conjunct1,
          THEN mp, OF a])
  have dg: "isDigit CHR ''9''" "isDigit CHR ''1''" "isDigit CHR ''5''" "\<not> isDigit CHR '':''"
    "digit_val CHR ''9'' = 9" "digit_val CHR ''1'' = 1" "digit_val CHR ''5'' = 5"
    "commaOrPeriod CHR ''.''" "parseNanoseconds ''.5'' (Suc (Suc 0)) = 500000000"
    by code_simp+
  have h1: "isDigit CHR ''9'' \<and> ('':30'' = [] \<or> \<not> isDigit (hd '':30''))"
    using dg by simp
  have h2: "''09:30'' = [] \<or> hd ''09:30'' \<noteq> CHR '' ''" by simp
  have h3: "isDigit CHR ''1'' \<and> isDigit CHR ''5''
      \<and> digit_val CHR ''1'' * 10 + digit_val CHR ''5'' < 60 \<and> commaOrPeriod CHR ''.''
      \<and> ''5'' \<noteq> [] \<and> (\<forall>c \<in> set ''5''. isDigit c) \<and> ([] = [] \<or> \<not> isDigit (hd []))"
    using dg by simp
  have 2: "parse_std stdHour ''9:30'' ?g = Some (?g\<lparr>f_hour := 9\<rparr>, '':30'')"
    "parse_std stdZeroMinute ''9:30'' ?g = None"
    using parseTime_first_pattern_wins [where c = "CHR ''9''" and r = "'':30''" and g = ?g,
        THEN conjunct2, THEN conjunct2, THEN conjunct2, THEN conjunct2, THEN conjunct2,
        THEN conjunct2, THEN conjunct2, THEN conjunct1, THEN mp, OF h1] dg
    by simp_all
  have 3: "skip ''   09:30'' '' '' = Some ''09:30''"
    using parseTime_first_pattern_wins [where v = "''09:30''" and n = 2,
        THEN conjunct2, THEN conjunct2, THEN conjunct2, THEN conjunct2, THEN conjunct2,
        THEN conjunct2, THEN conjunct2, THEN conjunct2, THEN conjunct1, THEN mp, OF h2]
    by (simp add: numeral_2_eq_2)
  have 4: "parse_std stdZeroSecond ''15.5'' ?g'
      = Some (?g'\<lparr>f_sec := 15, f_nsec := 500000000\<rparr>, [])"
    using parseTime_first_pattern_wins [where ?c1.0 = "CHR ''1''" and ?c2.0 = "CHR ''5''"
        and p = "CHR ''.''" and ds = "''5''" and r = "[]" and g = ?g',
        THEN conjunct2, THEN conjunct2, THEN conjunct2, THEN conjunct2, THEN conjunct2,
        THEN conjunct2, THEN conjunct2, THEN conjunct2, THEN conjunct2, THEN conjunct1,
        THEN mp, OF h3] dg
    by simp
  from 2 3 4 have
    "parse_std stdHour ''9:30'' ?g
      = Some (\<lparr>f_year = 2024, f_month = 3, f_day = 1, f_hour = 9, f_min = 0, f_sec = 0,
               f_nsec = 0\<rparr>, '':30'')"
    "parse_std stdZeroMinute ''9:30'' ?g = None"
    "skip ''   09:30'' '' '' = Some ''09:30''"
    "parse_std stdZeroSecond ''15.5'' ?g'
      = Some (\<lparr>f_year = 2024, f_month = 3, f_day = 1, f_hour = 9, f_min = 30, f_sec = 15,
               f_nsec = 500000000\<rparr>, [])"
    by simp_all
  with s d p 1 show ?thesis by (intro conjI)
qed

text \<open>
  Claim C9. Parsing returns an error exactly when the fast path does not scan the text and
  none of the nine patterns parses it, and the error is then the one error of
  \<^verbatim>\<open>parseTime\<close>; it returns a time exactly when one of them matches.
\<close>

lemma parseTime_Inl_iff:
  "parseTime now loc tspec = Inl e \<longleftrightarrow>
      e = CannotParse \<and> scanHHMM tspec = None
      \<and> (\<forall>sp \<in> set specs. ParseInLocation (spec sp) tspec loc = None)"
proof (cases "scanHHMM tspec")
  case None
  have "(\<forall>sp \<in> set specs. ParseInLocation (spec sp) tspec loc = None)
    \<longleftrightarrow> (\<forall>sp \<in> set specs. parse (spec sp) tspec = None)"
    by (simp add: ParseInLocation_eq)
  then show ?thesis
    using parseTime_not_scanned [OF None, of now loc] parseSpecs_error [of now loc tspec specs e]
      None
    by simp
next
  case (Some a)
  obtain hr mi secs where "a = (hr, mi, secs)" by (cases a)
  with Some parseTime_scanned [of tspec hr mi secs now loc] show ?thesis by simp
qed

theorem parseTime_error_iff:
  "(parseTime now loc tspec = Inl e \<longleftrightarrow>
      e = CannotParse \<and> scanHHMM tspec = None
      \<and> (\<forall>sp \<in> set specs. ParseInLocation (spec sp) tspec loc = None))
   \<and> ((\<exists>t. parseTime now loc tspec = Inr t) \<longleftrightarrow>
      scanHHMM tspec \<noteq> None
      \<or> (\<exists>sp \<in> set specs. ParseInLocation (spec sp) tspec loc \<noteq> None))
   \<and> length specs = 9"
proof (intro conjI)
  show "parseTime now loc tspec = Inl e \<longleftrightarrow>
      e = CannotParse \<and> scanHHMM tspec = None
      \<and> (\<forall>sp \<in> set specs. ParseInLocation (spec sp) tspec loc = None)"
    by (rule parseTime_Inl_iff)
  have "(\<exists>t. parseTime now loc tspec = Inr t) \<longleftrightarrow> parseTime now loc tspec \<noteq> Inl CannotParse"
  proof (cases "parseTime now loc tspec")
    case (Inl a)
    with parseTime_Inl_iff [of now loc tspec a] have "a = CannotParse" by simp
    with Inl show ?thesis by simp
  next
    case (Inr t)
    then show ?thesis by simp
  qed
  also have "\<dots> \<longleftrightarrow> scanHHMM tspec \<noteq> None
      \<or> (\<exists>sp \<in> set specs. ParseInLocation (spec sp) tspec loc \<noteq> None)"
    unfolding parseTime_Inl_iff by simp
  finally show "(\<exists>t. parseTime now loc tspec = Inr t) \<longleftrightarrow>
      scanHHMM tspec \<noteq> None
      \<or> (\<exists>sp \<in> set specs. ParseInLocation (spec sp) tspec loc \<noteq> None)" .
  show "length specs = 9" by (simp add: specs_def)
qed

theorem parseTime_error_iff_witness:
  "scanHHMM ''not-a-time'' = None
   \<and> map (\<lambda>sp. ParseInLocation (spec sp) ''not-a-time'' 0) specs = replicate 9 None
   \<and> parseTime (Date 2024 11 15 14 0 0 0 0) 0 ''not-a-time'' = Inl CannotParse
   \<and> scanHHMM ''14:30'' \<noteq> None
   \<and> (\<exists>t. parseTime (Date 2024 11 15 14 0 0 0 0) 0 ''14:30'' = Inr t)"
proof -
  let ?now = "Date 2024 11 15 14 0 0 0 0"
  have s: "scanHHMM ''not-a-time'' = None" "scanHHMM ''14:30'' \<noteq> None" by code_simp+
  have m: "map (\<lambda>sp. ParseInLocation (spec sp) ''not-a-time'' 0) specs = replicate 9 None"
    by code_simp
  have a: "\<forall>sp \<in> set specs. ParseInLocation (spec sp) ''not-a-time'' 0 = None"
  proof
    fix sp assume "sp \<in> set specs"
    then have "ParseInLocation (spec sp) ''not-a-time'' 0
        \<in> set (map (\<lambda>sp. ParseInLocation (spec sp) ''not-a-time'' 0) specs)" by simp
    then show "ParseInLocation (spec sp) ''not-a-time'' 0 = None" unfolding m by simp
  qed
  note t1 = parseTime_error_iff [of ?now 0 "''not-a-time''" CannotParse, THEN conjunct1]
  note t2 = parseTime_error_iff [of ?now 0 "''14:30''" CannotParse, THEN conjunct2, THEN conjunct1]
  have 1: "parseTime ?now 0 ''not-a-time'' = Inl CannotParse"
    using t1 s(1) a by (simp only: simp_thms)
  have 2: "\<exists>t. parseTime ?now 0 ''14:30'' = Inr t"
    using t2 s(2) by (simp only: simp_thms)
  show ?thesis
    by (intro conjI s m 1 2)
qed



end
